theory Spec2Isabelle
  imports Main "HOL-Library.Word" "HOL-Library.Code_Target_Nat"
begin

unbundle bit_operations_syntax

section \<open>Common types and helpers (GKey.h, GKey.c)\<close>

text \<open>
  Bytes are \<open>unsigned char\<close>.  Sizes, offsets, totals and bit counts (\<open>size_t\<close>,
  \<open>unsigned int\<close>, \<open>char\<close>) are natural numbers, and so are the bit accumulators
  (\<open>unsigned long\<close>): the source asserts \<open>history_log_2 \<le> MaxHistoryLog2 = 24\<close> at
  construction so that every accumulator value stays below \<open>2 ^ 32\<close>, and every
  subtraction of the source is guarded by a comparison.  The C operators are written
  with the bit operations of HOL (\<open>push_bit\<close> for \<open><<\<close>, \<open>drop_bit\<close> for \<open>>>\<close>).
\<close>

type_synonym byte = "8 word"

datatype GKeyStatus =
    GKeyStatus_OK
  | GKeyStatus_BadInput
  | GKeyStatus_TruncatedInput
  | GKeyStatus_BufferOverflow
  | GKeyStatus_Aborted
  | GKeyStatus_Finished

text \<open>
  The parameter block.  \<open>in_buffer\<close> is the caller's memory from the read pointer
  onwards (advancing the pointer by \<open>n\<close> is \<open>drop n\<close>, dereferencing it is \<open>! 0\<close>);
  \<open>in_size\<close> is the separate count of bytes the codec may read.  \<open>out_buffer\<close> is
  \<open>None\<close> for a null pointer, and otherwise holds the bytes stored below the write
  pointer so far (storing a byte through the pointer and advancing it appends the
  byte).  The progress callback is a function of the two totals; its context argument
  is part of the closure.
\<close>

record GKeyParameters =
  in_buffer :: "byte list"
  in_size :: nat
  out_buffer :: "byte list option"
  out_size :: nat
  prog_cb :: "(nat \<Rightarrow> nat \<Rightarrow> bool) option"

abbreviation CHAR_BIT :: nat where
  "CHAR_BIT \<equiv> 8"

definition UINT_MAX :: nat where
  "UINT_MAX = 2 ^ 32 - 1"

definition SIZE_MAX :: nat where
  "SIZE_MAX = 2 ^ 64 - 1"

abbreviation MaxHistoryLog2 :: nat where
  "MaxHistoryLog2 \<equiv> 24"

text \<open>
  In \<open>GKey_get_read_size_bits\<close> the bound \<open>1u << (history_log_2 - 1)\<close> is computed in
  \<open>unsigned int\<close>, 32 bits wide, and then compared with the \<open>size_t\<close> offset.  (C leaves
  a shift by 32 or more undefined; the word shift gives 0 there.)
\<close>

definition GKey_get_read_size_bits :: "nat \<Rightarrow> nat \<Rightarrow> nat" where
  "GKey_get_read_size_bits history_log_2 read_offset =
     (if history_log_2 > 0 \<and> read_offset \<ge> unat (push_bit (history_log_2 - 1) (1 :: 32 word))
      then history_log_2 - 1 else history_log_2)"

lemma unat_shift_one:
  assumes "n < 32"
  shows "unat (push_bit n (1 :: 32 word)) = 2 ^ n"
proof -
  have lt: "(2::nat) ^ n < 2 ^ 32"
    using assms by (intro power_strict_increasing) simp_all
  have "unat (push_bit n (1 :: 32 word)) = take_bit LENGTH(32) (push_bit n (unat (1 :: 32 word)))"
    by (rule unsigned_push_bit_eq)
  also have "\<dots> = take_bit 32 ((2::nat) ^ n)"
    by (simp only: unsigned_1 push_bit_of_1 len_num1 len_bit0 len_bit1 One_nat_def) simp
  also have "\<dots> = 2 ^ n"
    using lt by (rule take_bit_nat_eq_self)
  finally show ?thesis .
qed

lemma GKey_get_read_size_bits_legal:
  assumes "k \<le> 32"
  shows "GKey_get_read_size_bits k r = (if 0 < k \<and> 2 ^ (k - 1) \<le> r then k - 1 else k)"
proof (cases "k = 0")
  case True
  then show ?thesis by (simp add: GKey_get_read_size_bits_def)
next
  case False
  then have "k - 1 < 32" using assms by simp
  then have "unat (push_bit (k - 1) (1 :: 32 word)) = 2 ^ (k - 1)"
    by (rule unat_shift_one)
  then show ?thesis
    unfolding GKey_get_read_size_bits_def by (simp only:)
qed

section \<open>The history ring (RingBuffer.h, RingBuffer.c and its search routines)\<close>

text \<open>
  \<open>ring->size\<close> is written once, by \<open>RingBuffer_init\<close>, as \<open>1ul << size_log_2\<close>;
  the model reads it from \<open>size_log_2\<close>.
\<close>

record RingBuffer =
  write_pos :: nat
  filled :: bool
  size_log_2 :: nat
  buffer :: "byte list"

definition ring_size :: "RingBuffer \<Rightarrow> nat" where
  "ring_size ring = push_bit (size_log_2 ring) 1"

definition RingBuffer_reset :: "RingBuffer \<Rightarrow> RingBuffer" where
  "RingBuffer_reset ring =
     ring\<lparr>write_pos := 0, filled := False, buffer := replicate (ring_size ring) 0\<rparr>"

definition RingBuffer_init :: "RingBuffer \<Rightarrow> nat \<Rightarrow> RingBuffer" where
  "RingBuffer_init ring k = RingBuffer_reset (ring\<lparr>size_log_2 := k\<rparr>)"

text \<open>Allocation always succeeds in the model; the fresh block's content is irrelevant.\<close>

definition RingBuffer_make :: "nat \<Rightarrow> RingBuffer" where
  "RingBuffer_make k =
     RingBuffer_init \<lparr>write_pos = 0, filled = False, size_log_2 = 0, buffer = []\<rparr> k"

text \<open>
  The source pointer of \<open>RingBuffer_write\<close> points either into caller memory or into
  the ring's own storage (when called from \<open>RingBuffer_copy\<close>); in the second case
  every \<open>memmove\<close> reads the storage as it is at that moment.
\<close>

datatype src_ptr = Caller "byte list" | InRing nat

definition mem :: "byte list \<Rightarrow> nat \<Rightarrow> nat \<Rightarrow> byte list" where
  "mem buf start n = take n (drop start buf)"

definition src_bytes :: "RingBuffer \<Rightarrow> src_ptr \<Rightarrow> nat \<Rightarrow> byte list" where
  "src_bytes ring s n =
     (case s of Caller bs \<Rightarrow> take n bs | InRing i \<Rightarrow> mem (buffer ring) i n)"

definition src_add :: "src_ptr \<Rightarrow> nat \<Rightarrow> src_ptr" where
  "src_add s n = (case s of Caller bs \<Rightarrow> Caller (drop n bs) | InRing i \<Rightarrow> InRing (i + n))"

definition memmove :: "byte list \<Rightarrow> nat \<Rightarrow> byte list \<Rightarrow> byte list" where
  "memmove buf dst bs = take dst buf @ bs @ drop (dst + length bs) buf"

text \<open>
  The loops of the ring are written as the loop body, a function on the loop variables,
  and the loop that repeats it.  The body of the \<open>for\<close> loop of \<open>RingBuffer_write\<close>
  acts on \<open>ring\<close>, \<open>s\<close>, \<open>nleft\<close> and the local \<open>write_pos\<close>.
\<close>

definition RingBuffer_write_body ::
  "RingBuffer \<times> src_ptr \<times> nat \<times> nat \<Rightarrow> RingBuffer \<times> src_ptr \<times> nat \<times> nat" where
  "RingBuffer_write_body v =
     (case v of (ring, s, nleft, wpos) \<Rightarrow>
        let to_copy = ring_size ring - wpos;
            to_copy = (if to_copy > nleft then nleft else to_copy);
            ring1 = ring\<lparr>buffer := memmove (buffer ring) wpos (src_bytes ring s to_copy)\<rparr>;
            s1 = src_add s to_copy;
            wpos1 = wpos + to_copy
        in if wpos1 \<ge> ring_size ring
           then (ring1\<lparr>filled := True\<rparr>, s1, nleft - to_copy, 0)
           else (ring1, s1, nleft - to_copy, wpos1))"

definition RingBuffer_write_measure :: "RingBuffer \<times> src_ptr \<times> nat \<times> nat \<Rightarrow> nat" where
  "RingBuffer_write_measure v =
     (case v of (ring, s, nleft, wpos) \<Rightarrow> 2 * nleft + (if wpos \<ge> ring_size ring then 1 else 0))"

lemma RingBuffer_write_body_decreases:
  "nleft \<noteq> 0 \<Longrightarrow>
   RingBuffer_write_measure (RingBuffer_write_body (ring, s, nleft, wpos))
     < RingBuffer_write_measure (ring, s, nleft, wpos)"
  unfolding RingBuffer_write_body_def RingBuffer_write_measure_def
  by (auto simp: Let_def ring_size_def split: if_splits)

function RingBuffer_write_loop :: "RingBuffer \<times> src_ptr \<times> nat \<times> nat \<Rightarrow> RingBuffer" where
  "RingBuffer_write_loop (ring, s, nleft, wpos) =
     (if nleft \<noteq> 0 then RingBuffer_write_loop (RingBuffer_write_body (ring, s, nleft, wpos))
      else ring\<lparr>write_pos := wpos\<rparr>)"
  by pat_completeness auto
termination
  by (relation "measure RingBuffer_write_measure")
     (simp_all add: RingBuffer_write_body_decreases)

declare RingBuffer_write_loop.simps [simp del]

definition RingBuffer_write :: "RingBuffer \<Rightarrow> src_ptr \<Rightarrow> nat \<Rightarrow> RingBuffer" where
  "RingBuffer_write ring s n = RingBuffer_write_loop (ring, s, n, write_pos ring)"

text \<open>
  \<open>RingBuffer_copy\<close>: the callback takes its argument, the bytes at the offered
  address and their count, and returns the count it accepted with its updated argument.
  The loop variables are \<open>total\<close>, \<open>copied\<close> and \<open>to_copy\<close>, tested at the loop head
  as in the source.
\<close>

lemma and_ring_mask_less: "(x::nat) AND (ring_size ring - 1) < ring_size ring"
proof -
  have "x AND (2 ^ size_log_2 ring - 1) = take_bit (size_log_2 ring) x"
    by (simp add: take_bit_eq_mask mask_eq_exp_minus_1)
  then show ?thesis
    by (simp add: ring_size_def)
qed

definition RingBuffer_copy_body ::
  "('a \<Rightarrow> byte list \<Rightarrow> nat \<Rightarrow> nat \<times> 'a) option \<Rightarrow> nat \<Rightarrow> nat \<Rightarrow>
   RingBuffer \<times> 'a \<times> nat \<times> nat \<times> nat \<Rightarrow> RingBuffer \<times> 'a \<times> nat \<times> nat \<times> nat" where
  "RingBuffer_copy_body write_cb offset n v =
     (case v of (ring, cb_arg, tot, copied, to_copy) \<Rightarrow>
        let read_pos = (write_pos ring + offset) AND (ring_size ring - 1);
            to_copy1 = ring_size ring - read_pos;
            to_copy1 = (if to_copy1 > n - tot then n - tot else to_copy1);
            r = (case write_cb of
                   Some cb \<Rightarrow> cb cb_arg (drop read_pos (buffer ring)) to_copy1
                 | None \<Rightarrow> (to_copy1, cb_arg));
            ring1 = RingBuffer_write ring (InRing read_pos) (fst r)
        in (ring1, snd r, tot + fst r, fst r, to_copy1))"

definition RingBuffer_copy_measure :: "nat \<Rightarrow> RingBuffer \<times> 'a \<times> nat \<times> nat \<times> nat \<Rightarrow> nat" where
  "RingBuffer_copy_measure n v =
     (case v of (ring, cb_arg, tot, copied, to_copy) \<Rightarrow>
        if tot < n \<and> copied \<ge> to_copy then 1 + (n - tot) else 0)"

lemma RingBuffer_copy_body_decreases:
  "tot < n \<and> copied \<ge> to_copy \<Longrightarrow>
   RingBuffer_copy_measure n (RingBuffer_copy_body write_cb offset n (ring, cb_arg, tot, copied, to_copy))
     < RingBuffer_copy_measure n (ring, cb_arg, tot, copied, to_copy)"
proof -
  assume c: "tot < n \<and> copied \<ge> to_copy"
  define read_pos where "read_pos = (write_pos ring + offset) AND (ring_size ring - 1)"
  define tc where "tc = (if ring_size ring - read_pos > n - tot then n - tot
                         else ring_size ring - read_pos)"
  define r where "r = (case write_cb of
                         Some cb \<Rightarrow> cb cb_arg (drop read_pos (buffer ring)) tc
                       | None \<Rightarrow> (tc, cb_arg))"
  have body: "RingBuffer_copy_body write_cb offset n (ring, cb_arg, tot, copied, to_copy) =
      (RingBuffer_write ring (InRing read_pos) (fst r), snd r, tot + fst r, fst r, tc)"
    by (cases write_cb) (simp_all add: RingBuffer_copy_body_def Let_def read_pos_def tc_def r_def)
  have "read_pos < ring_size ring"
    unfolding read_pos_def by (rule and_ring_mask_less)
  then have "0 < tc"
    using c by (simp add: tc_def)
  then show ?thesis
    unfolding body RingBuffer_copy_measure_def using c by auto
qed

function RingBuffer_copy_loop ::
  "('a \<Rightarrow> byte list \<Rightarrow> nat \<Rightarrow> nat \<times> 'a) option \<Rightarrow> nat \<Rightarrow> nat \<Rightarrow>
   RingBuffer \<times> 'a \<times> nat \<times> nat \<times> nat \<Rightarrow> nat \<times> RingBuffer \<times> 'a" where
  "RingBuffer_copy_loop write_cb offset n (ring, cb_arg, tot, copied, to_copy) =
     (if tot < n \<and> copied \<ge> to_copy
      then RingBuffer_copy_loop write_cb offset n
             (RingBuffer_copy_body write_cb offset n (ring, cb_arg, tot, copied, to_copy))
      else (tot, ring, cb_arg))"
  by pat_completeness auto
termination
  by (relation "measure (\<lambda>(write_cb, offset, n, v). RingBuffer_copy_measure n v)")
     (simp_all add: RingBuffer_copy_body_decreases)

declare RingBuffer_copy_loop.simps [simp del]

definition RingBuffer_copy ::
  "RingBuffer \<Rightarrow> ('a \<Rightarrow> byte list \<Rightarrow> nat \<Rightarrow> nat \<times> 'a) option \<Rightarrow> 'a \<Rightarrow> nat \<Rightarrow> nat \<Rightarrow>
   nat \<times> RingBuffer \<times> 'a" where
  "RingBuffer_copy ring write_cb cb_arg offset n =
     RingBuffer_copy_loop write_cb offset n (ring, cb_arg, 0, 0, 0)"

definition RingBuffer_read_char :: "RingBuffer \<Rightarrow> nat \<Rightarrow> byte" where
  "RingBuffer_read_char ring offset =
     buffer ring ! ((write_pos ring + offset) AND (ring_size ring - 1))"

text \<open>\<open>memchr\<close>: the index of the first occurrence in the given bytes, if any.\<close>

primrec memchr :: "byte list \<Rightarrow> byte \<Rightarrow> nat option" where
  "memchr [] c = None"
| "memchr (x # xs) c = (if x = c then Some 0 else map_option Suc (memchr xs c))"

text \<open>
  \<open>match\<close> is kept as its distance from \<open>start\<close> (\<open>None\<close> for the null pointer), which
  is all the source uses: \<open>found = match - start + offset\<close>.
\<close>

definition RingBuffer_find_char :: "RingBuffer \<Rightarrow> nat \<Rightarrow> nat \<Rightarrow> byte \<Rightarrow> nat" where
  "RingBuffer_find_char ring offset n c =
     (let abs_read = (write_pos ring + offset) AND (ring_size ring - 1);
          to_search = (if write_pos ring > abs_read then write_pos ring - abs_read
                       else ring_size ring - abs_read);
          search = (if write_pos ring > abs_read then True else filled ring);
          to_search1 = (if search then min to_search n else to_search);
          match = (if search then memchr (mem (buffer ring) abs_read to_search1) c
                   else if c = 0 then Some 0 else None)
      in if match = None \<and> n > to_search1 then
           let offset1 = offset + to_search1;
               n1 = n - to_search1;
               to_search2 = min (write_pos ring) n1
           in (case memchr (mem (buffer ring) 0 to_search2) c of
                 Some m \<Rightarrow> m + offset1
               | None \<Rightarrow> SIZE_MAX)
         else (case match of Some m \<Rightarrow> m + offset | None \<Rightarrow> SIZE_MAX))"

text \<open>
  \<open>memcmp\<close> compares bytes as \<open>unsigned char\<close>; the C standard fixes only the sign
  of a non-zero result, the model returns the difference of the first differing pair.
\<close>

fun memcmp :: "byte list \<Rightarrow> byte list \<Rightarrow> int" where
  "memcmp (x # xs) (y # ys) = (if x = y then memcmp xs ys else int (unat x) - int (unat y))"
| "memcmp xs ys = 0"

text \<open>
  The comparison loop of \<open>RingBuffer_compare\<close> makes no progress when \<open>to_compare\<close> is
  zero, so it is a partial function: not returning is the value \<open>None\<close>.
\<close>

partial_function (option) RingBuffer_compare_loop ::
  "RingBuffer \<Rightarrow> nat \<Rightarrow> nat \<Rightarrow> nat \<Rightarrow> nat \<Rightarrow> nat \<Rightarrow> int option" where
  "RingBuffer_compare_loop ring start1 start2 len1 len2 nleft =
     (if nleft \<noteq> 0 then
        let to_compare = min (min len1 len2) nleft;
            diff = memcmp (mem (buffer ring) start1 to_compare)
                          (mem (buffer ring) start2 to_compare)
        in if diff \<noteq> 0 then Some diff
           else RingBuffer_compare_loop ring
                  (if len1 - to_compare = 0 then 0 else start1 + to_compare)
                  (if len2 - to_compare = 0 then 0 else start2 + to_compare)
                  (if len1 - to_compare = 0 then write_pos ring else len1 - to_compare)
                  (if len2 - to_compare = 0 then write_pos ring else len2 - to_compare)
                  (nleft - to_compare)
      else Some 0)"

declare RingBuffer_compare_loop.simps [code]

definition RingBuffer_compare :: "RingBuffer \<Rightarrow> nat \<Rightarrow> nat \<Rightarrow> nat \<Rightarrow> int option" where
  "RingBuffer_compare ring offset1 offset2 n =
     (let abs_read1 = (write_pos ring + offset1) AND (ring_size ring - 1);
          abs_read2 = (write_pos ring + offset2) AND (ring_size ring - 1)
      in if n = 1 then
           Some (int (unat (buffer ring ! abs_read1)) - int (unat (buffer ring ! abs_read2)))
         else
           let len1 = (if write_pos ring > abs_read1 then write_pos ring - abs_read1
                       else ring_size ring - abs_read1);
               len2 = (if write_pos ring > abs_read2 then write_pos ring - abs_read2
                       else ring_size ring - abs_read2)
           in RingBuffer_compare_loop ring abs_read1 abs_read2 len1 len2 n)"

section \<open>The decompressor (GKeyDecomp.c)\<close>

datatype GKeyDecompState =
    GKeyDecompState_Progress
  | GKeyDecompState_GetType
  | GKeyDecompState_GetOffset
  | GKeyDecompState_GetSize
  | GKeyDecompState_CopyData
  | GKeyDecompState_GetByte
  | GKeyDecompState_PutByte

record GKeyDecomp =
  d_state :: GKeyDecompState
  d_in_total :: nat
  d_out_total :: nat
  d_read_offset :: nat
  d_read_size :: nat
  d_acc :: nat
  d_acc_nbits :: nat
  d_literal :: byte
  d_history_log_2 :: nat
  d_history :: RingBuffer

text \<open>The decompressor's \<open>ring_writer\<close>; its argument is the pair of \<open>RingWriterParams\<close>.\<close>

definition decomp_ring_writer ::
  "GKeyDecomp \<times> GKeyParameters \<Rightarrow> byte list \<Rightarrow> nat \<Rightarrow> nat \<times> (GKeyDecomp \<times> GKeyParameters)" where
  "decomp_ring_writer rwp src n =
     (let decomp = fst rwp; params = snd rwp
      in case out_buffer params of
           None \<Rightarrow>
             (n, (decomp\<lparr>d_out_total := d_out_total decomp + n\<rparr>,
                  params\<lparr>out_size := out_size params + n\<rparr>))
         | Some w \<Rightarrow>
             let n1 = (if out_size params < n then out_size params else n)
             in (n1, (decomp\<lparr>d_out_total := d_out_total decomp + n1\<rparr>,
                      params\<lparr>out_buffer := Some (w @ take n1 src),
                             out_size := out_size params - n1\<rparr>)))"

text \<open>
  The input loop of \<open>read_bits\<close> over its local variables; the result starts with
  \<open>success\<close>.
\<close>

function read_bits_loop ::
  "nat \<Rightarrow> byte list \<Rightarrow> nat \<Rightarrow> nat \<Rightarrow> nat \<Rightarrow> nat \<Rightarrow> bool \<times> byte list \<times> nat \<times> nat \<times> nat \<times> nat" where
  "read_bits_loop nbits inb insz intot acc accn =
     (if accn < nbits then
        if insz = 0 then (False, inb, insz, intot, acc, accn)
        else read_bits_loop nbits (drop 1 inb) (insz - 1) (intot + 1)
               (acc OR push_bit accn (unat (inb ! 0))) (accn + CHAR_BIT)
      else (True, inb, insz, intot, acc, accn))"
  by pat_completeness auto
termination
  by (relation "measure (\<lambda>(nbits, inb, insz, intot, acc, accn). insz)") auto

declare read_bits_loop.simps [simp del]

text \<open>
  \<open>read_bits\<close> returns \<open>Some\<close> of the value stored through \<open>out\<close> when it returns
  true, and \<open>None\<close> when it returns false (\<open>*out\<close> is then left alone: the loop ends with
  \<open>success\<close> false exactly when the accumulator holds fewer than \<open>nbits\<close> bits).
\<close>

definition read_bits ::
  "GKeyDecomp \<Rightarrow> GKeyParameters \<Rightarrow> nat \<Rightarrow> nat option \<times> GKeyDecomp \<times> GKeyParameters" where
  "read_bits decomp params nbits =
     (case read_bits_loop nbits (in_buffer params) (in_size params) (d_in_total decomp)
             (d_acc decomp) (d_acc_nbits decomp) of
        (success, inb, insz, intot, acc, accn) \<Rightarrow>
          let params1 = params\<lparr>in_buffer := inb, in_size := insz\<rparr>;
              decomp1 = decomp\<lparr>d_in_total := intot\<rparr>
          in if accn \<ge> nbits then
               (if success then Some (acc AND (push_bit nbits 1 - 1)) else None,
                decomp1\<lparr>d_acc := drop_bit nbits acc, d_acc_nbits := accn - nbits\<rparr>, params1)
             else
               (if success then Some 0 else None,
                decomp1\<lparr>d_acc := acc, d_acc_nbits := accn\<rparr>, params1))"

text \<open>
  One function for each case label of the \<open>switch\<close>; a case that falls through calls
  the next.  Each returns the status, the \<open>stop\<close> flag and the local \<open>state\<close> with
  which the \<open>switch\<close> is left, and the updated objects.
\<close>

type_synonym decomp_result = "GKeyStatus \<times> bool \<times> GKeyDecompState \<times> GKeyDecomp \<times> GKeyParameters"

definition decomp_PutByte :: "GKeyDecomp \<Rightarrow> GKeyParameters \<Rightarrow> decomp_result" where
  "decomp_PutByte decomp params =
     (case decomp_ring_writer (decomp, params) [d_literal decomp] 1 of
        (n, (decomp1, params1)) \<Rightarrow>
          if n = 1 then
            (GKeyStatus_OK, False, GKeyDecompState_Progress,
             decomp1\<lparr>d_history :=
               RingBuffer_write (d_history decomp1) (Caller [d_literal decomp1]) 1\<rparr>,
             params1)
          else
            (GKeyStatus_BufferOverflow, False, GKeyDecompState_PutByte, decomp1, params1))"

definition decomp_GetByte :: "GKeyDecomp \<Rightarrow> GKeyParameters \<Rightarrow> decomp_result" where
  "decomp_GetByte decomp params =
     (case read_bits decomp params CHAR_BIT of
        (Some bits, decomp1, params1) \<Rightarrow>
          decomp_PutByte (decomp1\<lparr>d_literal := of_nat bits\<rparr>) params1
      | (None, decomp1, params1) \<Rightarrow>
          if d_acc decomp1 = 0 then
            (GKeyStatus_OK, True, GKeyDecompState_GetByte, decomp1, params1)
          else
            (GKeyStatus_TruncatedInput, False, GKeyDecompState_GetByte, decomp1, params1))"

definition decomp_CopyData :: "GKeyDecomp \<Rightarrow> GKeyParameters \<Rightarrow> decomp_result" where
  "decomp_CopyData decomp params =
     (case RingBuffer_copy (d_history decomp) (Some decomp_ring_writer) (decomp, params)
             (d_read_offset decomp) (d_read_size decomp) of
        (copied, ring1, (decomp1, params1)) \<Rightarrow>
          let decomp2 = decomp1\<lparr>d_history := ring1\<rparr>
          in if copied \<ge> d_read_size decomp2 then
               (GKeyStatus_OK, False, GKeyDecompState_Progress, decomp2, params1)
             else
               (GKeyStatus_BufferOverflow, False, GKeyDecompState_CopyData,
                decomp2\<lparr>d_read_size := d_read_size decomp2 - copied\<rparr>, params1))"

definition decomp_GetSize :: "GKeyDecomp \<Rightarrow> GKeyParameters \<Rightarrow> decomp_result" where
  "decomp_GetSize decomp params =
     (let nbits = GKey_get_read_size_bits (d_history_log_2 decomp) (d_read_offset decomp)
      in case read_bits decomp params nbits of
           (Some bits, decomp1, params1) \<Rightarrow>
             if bits = 0 \<or> d_read_offset decomp1 + bits > push_bit (d_history_log_2 decomp1) 1
             then (GKeyStatus_BadInput, False, GKeyDecompState_GetSize, decomp1, params1)
             else decomp_CopyData (decomp1\<lparr>d_read_size := bits\<rparr>) params1
         | (None, decomp1, params1) \<Rightarrow>
             (GKeyStatus_TruncatedInput, False, GKeyDecompState_GetSize, decomp1, params1))"

definition decomp_GetOffset :: "GKeyDecomp \<Rightarrow> GKeyParameters \<Rightarrow> decomp_result" where
  "decomp_GetOffset decomp params =
     (case read_bits decomp params (d_history_log_2 decomp) of
        (Some bits, decomp1, params1) \<Rightarrow>
          decomp_GetSize (decomp1\<lparr>d_read_offset := bits\<rparr>) params1
      | (None, decomp1, params1) \<Rightarrow>
          (GKeyStatus_TruncatedInput, False, GKeyDecompState_GetOffset, decomp1, params1))"

text \<open>
  Case \<open>GetType\<close> asserts, at the end of the stream, that the accumulator is empty.
  A failed assertion ends the program without a status: the cases that can reach it
  return \<open>None\<close> then, and \<open>Some\<close> of their result otherwise.
\<close>

definition decomp_GetType :: "GKeyDecomp \<Rightarrow> GKeyParameters \<Rightarrow> decomp_result option" where
  "decomp_GetType decomp params =
     (case read_bits decomp params 1 of
        (Some bits, decomp1, params1) \<Rightarrow>
          if bits \<noteq> 0 then Some (decomp_GetOffset decomp1 params1)
          else Some (GKeyStatus_OK, False, GKeyDecompState_GetByte, decomp1, params1)
      | (None, decomp1, params1) \<Rightarrow>
          if d_acc decomp1 = 0 \<and> d_acc_nbits decomp1 = 0
          then Some (GKeyStatus_OK, True, GKeyDecompState_GetType, decomp1, params1)
          else None)"

definition decomp_Progress :: "GKeyDecomp \<Rightarrow> GKeyParameters \<Rightarrow> decomp_result option" where
  "decomp_Progress decomp params =
     (case prog_cb params of
        Some cb \<Rightarrow>
          if cb (d_in_total decomp) (d_out_total decomp) then decomp_GetType decomp params
          else Some (GKeyStatus_Aborted, False, GKeyDecompState_Progress, decomp, params)
      | None \<Rightarrow> decomp_GetType decomp params)"

definition decomp_switch ::
  "GKeyDecompState \<Rightarrow> GKeyDecomp \<Rightarrow> GKeyParameters \<Rightarrow> decomp_result option" where
  "decomp_switch st decomp params =
     (case st of
        GKeyDecompState_Progress \<Rightarrow> decomp_Progress decomp params
      | GKeyDecompState_GetType \<Rightarrow> decomp_GetType decomp params
      | GKeyDecompState_GetOffset \<Rightarrow> Some (decomp_GetOffset decomp params)
      | GKeyDecompState_GetSize \<Rightarrow> Some (decomp_GetSize decomp params)
      | GKeyDecompState_CopyData \<Rightarrow> Some (decomp_CopyData decomp params)
      | GKeyDecompState_GetByte \<Rightarrow> Some (decomp_GetByte decomp params)
      | GKeyDecompState_PutByte \<Rightarrow> Some (decomp_PutByte decomp params))"



text \<open>
  The \<open>do ... while (status == GKeyStatus_OK && !stop)\<close> loop.  It terminates because
  every pass that goes on either takes bits out of the stream still to be read (the
  accumulator's bits and the unread input) or returns to state \<open>Progress\<close>.
\<close>

definition bits_left :: "GKeyDecomp \<Rightarrow> GKeyParameters \<Rightarrow> nat" where
  "bits_left decomp params = d_acc_nbits decomp + CHAR_BIT * in_size params"

lemma read_bits_loop_left:
  "read_bits_loop nbits inb insz intot acc accn = (ok, inb1, insz1, intot1, acc1, accn1) \<Longrightarrow>
   accn1 + 8 * insz1 = accn + 8 * insz \<and> (ok \<longrightarrow> nbits \<le> accn1) \<and> (\<not> ok \<longrightarrow> accn1 < nbits)"
proof (induction nbits inb insz intot acc accn rule: read_bits_loop.induct)
  case (1 nbits inb insz intot acc accn)
  show ?case
  proof (cases "accn < nbits \<and> insz \<noteq> 0")
    case True
    then have "read_bits_loop nbits (drop 1 inb) (insz - 1) (intot + 1)
        (acc OR push_bit accn (unat (inb ! 0))) (accn + 8) = (ok, inb1, insz1, intot1, acc1, accn1)"
      using "1.prems" by (subst (asm) read_bits_loop.simps) simp
    from "1.IH"[OF _ _ this] True show ?thesis by (cases insz) auto
  next
    case False
    then show ?thesis using "1.prems"
      by (subst (asm) read_bits_loop.simps) (auto split: if_splits)
  qed
qed

lemma read_bits_left:
  "read_bits decomp params nbits = (r, decomp1, params1) \<Longrightarrow>
   bits_left decomp1 params1 + (if r = None then 0 else nbits) = bits_left decomp params"
  unfolding read_bits_def bits_left_def
  by (auto split: prod.splits if_splits dest!: read_bits_loop_left)

lemma decomp_ring_writer_left:
  "bits_left (fst (snd (decomp_ring_writer rwp src n))) (snd (snd (decomp_ring_writer rwp src n)))
     = bits_left (fst rwp) (snd rwp)"
  unfolding decomp_ring_writer_def bits_left_def
  by (auto simp: Let_def split: option.splits)

lemma RingBuffer_copy_loop_cb_inv:
  assumes "\<And>a src m. P a \<Longrightarrow> P (snd (cb a src m))"
  shows "P (fst (snd v)) \<Longrightarrow> P (snd (snd (RingBuffer_copy_loop (Some cb) offset n v)))"
proof (induction "Some cb" offset n v rule: RingBuffer_copy_loop.induct)
  case (1 offset n ring cb_arg tot copied to_copy)
  show ?case
  proof (cases "tot < n \<and> to_copy \<le> copied")
    case True
    have "P (fst (snd (RingBuffer_copy_body (Some cb) offset n (ring, cb_arg, tot, copied, to_copy))))"
      using assms "1.prems" by (simp add: RingBuffer_copy_body_def Let_def)
    from "1.hyps"[OF True this] True show ?thesis
      by (subst RingBuffer_copy_loop.simps) simp
  next
    case False
    then show ?thesis using "1.prems" by (subst RingBuffer_copy_loop.simps) auto
  qed
qed

lemma RingBuffer_copy_left:
  "RingBuffer_copy ring (Some decomp_ring_writer) (decomp, params) offset n = (c, ring1, (decomp1, params1)) \<Longrightarrow>
   bits_left decomp1 params1 = bits_left decomp params"
  using RingBuffer_copy_loop_cb_inv[where P="\<lambda>a. bits_left (fst a) (snd a) = bits_left decomp params"
      and cb=decomp_ring_writer and v="(ring, (decomp, params), 0, 0, 0)" and offset=offset and n=n]
  by (simp add: RingBuffer_copy_def decomp_ring_writer_left)

definition decomp_measure :: "GKeyDecompState \<times> GKeyDecomp \<times> GKeyParameters \<Rightarrow> nat" where
  "decomp_measure v =
     (case v of (st, decomp, params) \<Rightarrow>
        2 * bits_left decomp params + (if st = GKeyDecompState_Progress then 0 else 1))"

lemma decomp_PutByte_left:
  "decomp_PutByte decomp params = (GKeyStatus_OK, stop, st1, decomp1, params1) \<Longrightarrow>
   bits_left decomp1 params1 = bits_left decomp params \<and> st1 = GKeyDecompState_Progress"
  unfolding decomp_PutByte_def
  using decomp_ring_writer_left[of "(decomp, params)" "[d_literal decomp]" 1]
  by (auto simp: bits_left_def split: prod.splits if_splits)

lemma decomp_CopyData_left:
  "decomp_CopyData decomp params = (GKeyStatus_OK, stop, st1, decomp1, params1) \<Longrightarrow>
   bits_left decomp1 params1 = bits_left decomp params \<and> st1 = GKeyDecompState_Progress"
  unfolding decomp_CopyData_def
  by (auto simp: bits_left_def Let_def split: prod.splits if_splits dest!: RingBuffer_copy_left)

lemma decomp_GetByte_left:
  "decomp_GetByte decomp params = (GKeyStatus_OK, False, st1, decomp1, params1) \<Longrightarrow>
   bits_left decomp1 params1 \<le> bits_left decomp params \<and> st1 = GKeyDecompState_Progress"
  unfolding decomp_GetByte_def
  by (auto simp: bits_left_def split: prod.splits option.splits if_splits
      dest!: read_bits_left decomp_PutByte_left)

lemma decomp_GetSize_left:
  "decomp_GetSize decomp params = (GKeyStatus_OK, False, st1, decomp1, params1) \<Longrightarrow>
   bits_left decomp1 params1 \<le> bits_left decomp params \<and> st1 = GKeyDecompState_Progress"
  unfolding decomp_GetSize_def
  by (auto simp: bits_left_def Let_def split: prod.splits option.splits if_splits
      dest!: read_bits_left decomp_CopyData_left)

lemma decomp_GetOffset_left:
  "decomp_GetOffset decomp params = (GKeyStatus_OK, False, st1, decomp1, params1) \<Longrightarrow>
   bits_left decomp1 params1 \<le> bits_left decomp params \<and> st1 = GKeyDecompState_Progress"
  unfolding decomp_GetOffset_def
  by (auto simp: bits_left_def split: prod.splits option.splits if_splits
      dest!: read_bits_left decomp_GetSize_left)

lemma decomp_GetType_left:
  "decomp_GetType decomp params = Some (GKeyStatus_OK, False, st1, decomp1, params1) \<Longrightarrow>
   bits_left decomp1 params1 < bits_left decomp params"
  unfolding decomp_GetType_def
  by (auto simp: bits_left_def split: prod.splits option.splits if_splits
      dest!: read_bits_left decomp_GetOffset_left)

lemma decomp_switch_decreases:
  "decomp_switch st decomp params = Some (GKeyStatus_OK, False, st1, decomp1, params1) \<Longrightarrow>
   decomp_measure (st1, decomp1, params1) < decomp_measure (st, decomp, params)"
  unfolding decomp_switch_def decomp_measure_def decomp_Progress_def
  by (auto split: GKeyDecompState.splits option.splits if_splits
      dest!: decomp_GetType_left decomp_GetOffset_left decomp_GetSize_left decomp_GetByte_left
             decomp_CopyData_left decomp_PutByte_left)

function decomp_loop ::
  "GKeyDecompState \<times> GKeyDecomp \<times> GKeyParameters \<Rightarrow>
   (GKeyStatus \<times> GKeyDecomp \<times> GKeyParameters) option" where
  "decomp_loop (st, decomp, params) =
     (case decomp_switch st decomp params of
        None \<Rightarrow> None
      | Some (status, stop, st1, decomp1, params1) \<Rightarrow>
          if status = GKeyStatus_OK \<and> \<not> stop then decomp_loop (st1, decomp1, params1)
          else Some (status, decomp1\<lparr>d_state := st1\<rparr>, params1))"
  by pat_completeness auto
termination
  by (relation "measure decomp_measure") (auto simp: decomp_switch_decreases)


declare decomp_loop.simps [simp del]

definition gkeydecomp_make :: "nat \<Rightarrow> GKeyDecomp" where
  "gkeydecomp_make k =
     \<lparr>d_state = GKeyDecompState_Progress, d_in_total = 0, d_out_total = 0, d_read_offset = 0,
      d_read_size = 0, d_acc = 0, d_acc_nbits = 0, d_literal = 0, d_history_log_2 = k,
      d_history = RingBuffer_make k\<rparr>"

definition gkeydecomp_reset :: "GKeyDecomp \<Rightarrow> GKeyDecomp" where
  "gkeydecomp_reset decomp =
     decomp\<lparr>d_state := GKeyDecompState_Progress, d_in_total := 0, d_out_total := 0,
            d_read_offset := 0, d_read_size := 0, d_acc := 0, d_acc_nbits := 0, d_literal := 0,
            d_history := RingBuffer_reset (d_history decomp)\<rparr>"

definition gkeydecomp_decompress ::
  "GKeyDecomp \<Rightarrow> GKeyParameters \<Rightarrow> (GKeyStatus \<times> GKeyDecomp \<times> GKeyParameters) option" where
  "gkeydecomp_decompress decomp params = decomp_loop (d_state decomp, decomp, params)"

section \<open>The compressor (GKeyComp.c, with FOURTH_DIMENSION defined)\<close>

datatype GKeyCompState =
    GKeyCompState_NextSequence
  | GKeyCompState_Progress
  | GKeyCompState_FindSequence
  | GKeyCompState_PutOffset
  | GKeyCompState_PutSize
  | GKeyCompState_PutByte
  | GKeyCompState_PutBytes
  | GKeyCompState_Flush

record GKeyComp =
  c_state :: GKeyCompState
  c_in_total :: nat
  c_out_total :: nat
  c_out_pos :: nat
  c_max_read_size :: nat
  c_best_read_offset :: nat
  c_best_read_size :: nat
  c_read_offset :: nat
  c_read_size :: nat
  c_acc :: nat
  c_acc_nbits :: nat
  c_history_log_2 :: nat
  c_history :: RingBuffer

text \<open>The output loop of \<open>write_bits\<close> over its local variables.\<close>

definition write_bits_body ::
  "byte list option \<times> nat \<times> nat \<times> nat \<times> nat \<Rightarrow> byte list option \<times> nat \<times> nat \<times> nat \<times> nat" where
  "write_bits_body v =
     (case v of (outb, outsz, outtot, acc, accn) \<Rightarrow>
        let old_acc = acc;
            acc1 = drop_bit CHAR_BIT acc;
            accn1 = accn - CHAR_BIT
        in case outb of
             Some w \<Rightarrow> (Some (w @ [of_nat old_acc]), outsz - 1, outtot + 1, acc1, accn1)
           | None \<Rightarrow> (None, outsz + 1, outtot + 1, acc1, accn1))"

function write_bits_loop ::
  "byte list option \<times> nat \<times> nat \<times> nat \<times> nat \<Rightarrow>
   bool \<times> byte list option \<times> nat \<times> nat \<times> nat \<times> nat" where
  "write_bits_loop (outb, outsz, outtot, acc, accn) =
     (if accn \<ge> CHAR_BIT then
        if outb \<noteq> None \<and> outsz = 0 then (False, outb, outsz, outtot, acc, accn)
        else write_bits_loop (write_bits_body (outb, outsz, outtot, acc, accn))
      else (True, outb, outsz, outtot, acc, accn))"
  by pat_completeness auto
termination
  by (relation "measure (\<lambda>(outb, outsz, outtot, acc, accn). accn)")
     (auto simp: write_bits_body_def Let_def split: option.splits)

declare write_bits_loop.simps [simp del]

definition write_bits ::
  "GKeyComp \<Rightarrow> GKeyParameters \<Rightarrow> nat \<Rightarrow> nat \<Rightarrow> bool \<times> GKeyComp \<times> GKeyParameters" where
  "write_bits cmpr params nbits bits =
     (let nbits1 = (if nbits = UINT_MAX then 0 else nbits);
          accn0 = (if nbits = UINT_MAX \<and> c_acc_nbits cmpr mod CHAR_BIT \<noteq> 0
                   then c_acc_nbits cmpr + (CHAR_BIT - c_acc_nbits cmpr mod CHAR_BIT)
                   else c_acc_nbits cmpr)
      in case write_bits_loop (out_buffer params, out_size params, c_out_total cmpr,
                               c_acc cmpr, accn0) of
           (success, outb, outsz, outtot, acc, accn) \<Rightarrow>
             (success,
              cmpr\<lparr>c_out_total := outtot,
                   c_acc := (if success then acc OR push_bit accn bits else acc),
                   c_acc_nbits := (if success then accn + nbits1 else accn)\<rparr>,
              params\<lparr>out_buffer := outb, out_size := outsz\<rparr>))"

text \<open>The compressor's \<open>ring_writer\<close>: one tagged literal for each offered byte.\<close>

function comp_ring_writer_loop ::
  "byte list \<Rightarrow> nat \<Rightarrow> GKeyComp \<times> GKeyParameters \<times> nat \<Rightarrow> nat \<times> (GKeyComp \<times> GKeyParameters)" where
  "comp_ring_writer_loop literals n (cmpr, params, nout) =
     (if nout < n then
        case write_bits cmpr params (CHAR_BIT + 1) (push_bit 1 (unat (literals ! nout))) of
          (ok, comp1, params1) \<Rightarrow>
            if \<not> ok then (nout, (comp1, params1))
            else comp_ring_writer_loop literals n (comp1, params1, nout + 1)
      else (nout, (cmpr, params)))"
  by pat_completeness auto
termination
  by (relation "measure (\<lambda>(literals, n, cmpr, params, nout). n - nout)") auto

declare comp_ring_writer_loop.simps [simp del]

definition comp_ring_writer ::
  "GKeyComp \<times> GKeyParameters \<Rightarrow> byte list \<Rightarrow> nat \<Rightarrow> nat \<times> (GKeyComp \<times> GKeyParameters)" where
  "comp_ring_writer rwp src n = comp_ring_writer_loop src n (fst rwp, snd rwp, 0)"

text \<open>
  \<open>find_sequence\<close>.  Its loop variables are kept in a record; \<open>fv_best_read_offset\<close>
  stands for \<open>comp->best_read_offset\<close>, which the loop updates in place.
\<close>

record find_vars =
  fv_read_offset :: nat
  fv_read_size :: nat
  fv_max_read_size :: nat
  fv_best_read_size :: nat
  fv_best_read_offset :: nat
  fv_consumed :: nat

text \<open>How a part of the loop body is left.\<close>

datatype find_ctl = Break find_vars | Continue find_vars | Proceed find_vars

text \<open>
  The inner loop that extends the current sequence; the first component of its result
  tells whether it was left by \<open>goto finished\<close>.
\<close>

function find_sequence_extend ::
  "RingBuffer \<Rightarrow> GKeyParameters \<Rightarrow> nat \<Rightarrow> nat \<Rightarrow> nat \<times> nat \<Rightarrow> bool \<times> nat \<times> nat" where
  "find_sequence_extend history params read_offset max_read_size (read_size, consumed) =
     (if read_size < max_read_size then
        if consumed \<ge> in_size params then (True, read_size, consumed)
        else if in_buffer params ! consumed \<noteq>
                RingBuffer_read_char history (read_offset + read_size)
        then (False, read_size, consumed)
        else find_sequence_extend history params read_offset max_read_size
               (read_size + 1, consumed + 1)
      else (False, read_size, consumed))"
  by pat_completeness auto
termination
  by (relation "measure (\<lambda>(history, params, read_offset, max_read_size, read_size, consumed).
        max_read_size - read_size)") auto

declare find_sequence_extend.simps [simp del]

text \<open>The block guarded by \<open>read_size == 0\<close>: the search for the first character.\<close>

definition find_sequence_search ::
  "GKeyComp \<Rightarrow> GKeyParameters \<Rightarrow> find_vars \<Rightarrow> find_ctl option" where
  "find_sequence_search cmpr params v =
     (let max_read_size = push_bit (c_history_log_2 cmpr) 1 - fv_read_offset v;
          max_read_size = (if max_read_size > 0 then max_read_size - 1 else max_read_size);
          v1 = v\<lparr>fv_max_read_size := max_read_size\<rparr>
      in if fv_best_read_size v \<ge> max_read_size then Some (Break v1)
         else if fv_best_read_size v = 0 \<and> fv_consumed v \<ge> in_size params then Some (Break v1)
         else
           let new_byte = (if fv_best_read_size v = 0 then in_buffer params ! fv_consumed v
                           else RingBuffer_read_char (c_history cmpr) (fv_best_read_offset v));
               old_read_offset = fv_read_offset v;
               read_offset = RingBuffer_find_char (c_history cmpr) (fv_read_offset v)
                               (max_read_size - fv_best_read_size v) new_byte
           in if read_offset = SIZE_MAX
              then Some (Break (v\<lparr>fv_read_offset := read_offset, fv_max_read_size := 0\<rparr>))
              else
                let consumed = (if fv_read_size v \<ge> fv_best_read_size v
                                then fv_consumed v + 1 else fv_consumed v);
                    read_size = fv_read_size v + 1;
                    max_read_size1 = max_read_size - (read_offset - old_read_offset);
                    v2 = v\<lparr>fv_read_offset := read_offset, fv_read_size := read_size,
                           fv_max_read_size := max_read_size1, fv_consumed := consumed\<rparr>
                in if read_size < fv_best_read_size v then
                     (case RingBuffer_compare (c_history cmpr)
                             (read_offset + read_size)
                             (fv_best_read_offset v + read_size)
                             (fv_best_read_size v - read_size) of
                        None \<Rightarrow> None
                      | Some d \<Rightarrow>
                          if d \<noteq> 0 then Some (Continue v2)
                          else Some (Proceed (v2\<lparr>fv_read_size := fv_best_read_size v\<rparr>)))
                   else Some (Proceed v2))"

text \<open>
  One pass of the outer \<open>for\<close> loop, with its increment \<open>++read_offset, read_size = 0\<close>
  when the pass ends normally or by \<open>continue\<close>.  The first component of the result
  tells whether the loop is left (by \<open>break\<close> or \<open>goto finished\<close>).
\<close>

definition find_sequence_next :: "find_vars \<Rightarrow> find_vars" where
  "find_sequence_next v = v\<lparr>fv_read_offset := fv_read_offset v + 1, fv_read_size := 0\<rparr>"

definition find_sequence_body ::
  "GKeyComp \<Rightarrow> GKeyParameters \<Rightarrow> find_vars \<Rightarrow> (bool \<times> find_vars) option" where
  "find_sequence_body cmpr params v =
     (case (if fv_read_size v = 0 then find_sequence_search cmpr params v
            else Some (Proceed v)) of
        None \<Rightarrow> None
      | Some (Break v1) \<Rightarrow> Some (True, v1)
      | Some (Continue v1) \<Rightarrow> Some (False, find_sequence_next v1)
      | Some (Proceed v1) \<Rightarrow>
          (case find_sequence_extend (c_history cmpr) params (fv_read_offset v1)
                  (fv_max_read_size v1) (fv_read_size v1, fv_consumed v1) of
             (out_of_input, read_size, consumed) \<Rightarrow>
               let v2 = v1\<lparr>fv_read_size := read_size, fv_consumed := consumed\<rparr>
               in if out_of_input then Some (True, v2)
                  else if read_size > fv_best_read_size v2
                  then Some (False, find_sequence_next
                         (v2\<lparr>fv_best_read_offset := fv_read_offset v2,
                              fv_best_read_size := read_size\<rparr>))
                  else Some (False, find_sequence_next v2)))"

text \<open>
  The outer loop of \<open>find_sequence\<close> ends because \<open>read_offset\<close> grows with every pass:
  the search never returns an offset below the one it started from.
\<close>

lemma RingBuffer_find_char_ge_or:
  "RingBuffer_find_char ring offset n c = SIZE_MAX \<or> offset \<le> RingBuffer_find_char ring offset n c"
proof -
  define abs_read where "abs_read = (write_pos ring + offset) AND (ring_size ring - 1)"
  define search where "search = (if write_pos ring > abs_read then True else filled ring)"
  define to_search where "to_search = (if write_pos ring > abs_read then write_pos ring - abs_read
                       else ring_size ring - abs_read)"
  define to_search1 where "to_search1 = (if search then min to_search n else to_search)"
  define match where "match = (if search then memchr (mem (buffer ring) abs_read to_search1) c
                   else if c = 0 then Some 0 else None)"
  define second where "second = memchr (mem (buffer ring) 0 (min (write_pos ring) (n - to_search1))) c"
  have fc: "RingBuffer_find_char ring offset n c =
     (if match = None \<and> n > to_search1 then
        (case second of Some m \<Rightarrow> m + (offset + to_search1) | None \<Rightarrow> SIZE_MAX)
      else (case match of Some m \<Rightarrow> m + offset | None \<Rightarrow> SIZE_MAX))"
    unfolding RingBuffer_find_char_def Let_def abs_read_def search_def to_search_def
      to_search1_def match_def second_def
    by (rule refl)
  show ?thesis
    unfolding fc by (cases match; cases second) auto
qed

lemma RingBuffer_find_char_ge:
  "RingBuffer_find_char ring offset n c \<noteq> SIZE_MAX \<Longrightarrow>
   offset \<le> RingBuffer_find_char ring offset n c"
  using RingBuffer_find_char_ge_or[of ring offset n c] by blast


definition find_sequence_measure :: "nat \<Rightarrow> find_vars \<Rightarrow> nat" where
  "find_sequence_measure k v =
     2 * (push_bit k 1 + 1 - fv_read_offset v) + (if fv_read_size v \<noteq> 0 then 1 else 0)"

lemma find_sequence_search_cases:
  obtains mx nb ro1 v2 where
    "mx = push_bit (c_history_log_2 cmpr) 1 - Suc (fv_read_offset v)"
    "nb = (if fv_best_read_size v = 0 then in_buffer params ! fv_consumed v
           else RingBuffer_read_char (c_history cmpr) (fv_best_read_offset v))"
    "ro1 = RingBuffer_find_char (c_history cmpr) (fv_read_offset v) (mx - fv_best_read_size v) nb"
    "v2 = v\<lparr>fv_read_offset := ro1, fv_read_size := fv_read_size v + 1,
              fv_max_read_size := mx - (ro1 - fv_read_offset v),
              fv_consumed := (if fv_read_size v \<ge> fv_best_read_size v
                              then fv_consumed v + 1 else fv_consumed v)\<rparr>"
    "find_sequence_search cmpr params v =
       (if fv_best_read_size v \<ge> mx then Some (Break (v\<lparr>fv_max_read_size := mx\<rparr>))
        else if fv_best_read_size v = 0 \<and> fv_consumed v \<ge> in_size params
        then Some (Break (v\<lparr>fv_max_read_size := mx\<rparr>))
        else if ro1 = SIZE_MAX
        then Some (Break (v\<lparr>fv_read_offset := ro1, fv_max_read_size := 0\<rparr>))
        else if fv_read_size v + 1 < fv_best_read_size v then
          (case RingBuffer_compare (c_history cmpr) (ro1 + (fv_read_size v + 1))
                  (fv_best_read_offset v + (fv_read_size v + 1))
                  (fv_best_read_size v - (fv_read_size v + 1)) of
             None \<Rightarrow> None
           | Some d \<Rightarrow> if d \<noteq> 0 then Some (Continue v2)
                       else Some (Proceed (v2\<lparr>fv_read_size := fv_best_read_size v\<rparr>)))
        else Some (Proceed v2))"
proof -
  define mx0 where "mx0 = push_bit (c_history_log_2 cmpr) 1 - fv_read_offset v"
  define mx where "mx = (if mx0 > 0 then mx0 - 1 else mx0)"
  define nb where "nb = (if fv_best_read_size v = 0 then in_buffer params ! fv_consumed v
           else RingBuffer_read_char (c_history cmpr) (fv_best_read_offset v))"
  define ro1 where "ro1 = RingBuffer_find_char (c_history cmpr) (fv_read_offset v) (mx - fv_best_read_size v) nb"
  define v2 where "v2 = v\<lparr>fv_read_offset := ro1, fv_read_size := fv_read_size v + 1,
              fv_max_read_size := mx - (ro1 - fv_read_offset v),
              fv_consumed := (if fv_read_size v \<ge> fv_best_read_size v
                              then fv_consumed v + 1 else fv_consumed v)\<rparr>"
  have mx: "mx = push_bit (c_history_log_2 cmpr) 1 - Suc (fv_read_offset v)"
    by (simp add: mx_def mx0_def)
  have "find_sequence_search cmpr params v =
       (if fv_best_read_size v \<ge> mx then Some (Break (v\<lparr>fv_max_read_size := mx\<rparr>))
        else if fv_best_read_size v = 0 \<and> fv_consumed v \<ge> in_size params
        then Some (Break (v\<lparr>fv_max_read_size := mx\<rparr>))
        else if ro1 = SIZE_MAX
        then Some (Break (v\<lparr>fv_read_offset := ro1, fv_max_read_size := 0\<rparr>))
        else if fv_read_size v + 1 < fv_best_read_size v then
          (case RingBuffer_compare (c_history cmpr) (ro1 + (fv_read_size v + 1))
                  (fv_best_read_offset v + (fv_read_size v + 1))
                  (fv_best_read_size v - (fv_read_size v + 1)) of
             None \<Rightarrow> None
           | Some d \<Rightarrow> if d \<noteq> 0 then Some (Continue v2)
                       else Some (Proceed (v2\<lparr>fv_read_size := fv_best_read_size v\<rparr>)))
        else Some (Proceed v2))"
    unfolding find_sequence_search_def Let_def mx0_def mx_def nb_def ro1_def v2_def
    by (rule refl)
  then show ?thesis
    using that[OF mx nb_def ro1_def v2_def] by blast
qed

lemma find_sequence_search_offset:
  assumes "find_sequence_search cmpr params v = Some r" "r = Continue w \<or> r = Proceed w"
  shows "fv_read_offset v \<le> fv_read_offset w \<and>
         fv_read_offset v + 1 < push_bit (c_history_log_2 cmpr) 1"
proof -
  obtain mx nb ro1 v2 where
    mx: "mx = push_bit (c_history_log_2 cmpr) 1 - Suc (fv_read_offset v)" and
    ro1: "ro1 = RingBuffer_find_char (c_history cmpr) (fv_read_offset v) (mx - fv_best_read_size v) nb" and
    v2: "v2 = v\<lparr>fv_read_offset := ro1, fv_read_size := fv_read_size v + 1,
              fv_max_read_size := mx - (ro1 - fv_read_offset v),
              fv_consumed := (if fv_read_size v \<ge> fv_best_read_size v
                              then fv_consumed v + 1 else fv_consumed v)\<rparr>" and
    eq: "find_sequence_search cmpr params v =
       (if fv_best_read_size v \<ge> mx then Some (Break (v\<lparr>fv_max_read_size := mx\<rparr>))
        else if fv_best_read_size v = 0 \<and> fv_consumed v \<ge> in_size params
        then Some (Break (v\<lparr>fv_max_read_size := mx\<rparr>))
        else if ro1 = SIZE_MAX
        then Some (Break (v\<lparr>fv_read_offset := ro1, fv_max_read_size := 0\<rparr>))
        else if fv_read_size v + 1 < fv_best_read_size v then
          (case RingBuffer_compare (c_history cmpr) (ro1 + (fv_read_size v + 1))
                  (fv_best_read_offset v + (fv_read_size v + 1))
                  (fv_best_read_size v - (fv_read_size v + 1)) of
             None \<Rightarrow> None
           | Some d \<Rightarrow> if d \<noteq> 0 then Some (Continue v2)
                       else Some (Proceed (v2\<lparr>fv_read_size := fv_best_read_size v\<rparr>)))
        else Some (Proceed v2))"
    by (rule find_sequence_search_cases[of cmpr v params]) blast
  from assms eq have c: "\<not> fv_best_read_size v \<ge> mx" "ro1 \<noteq> SIZE_MAX"
    by (auto split: if_splits)
  from assms eq c have "fv_read_offset w = ro1"
    by (auto simp: v2 split: if_splits option.splits)
  moreover have "fv_read_offset v \<le> ro1"
    using c(2) unfolding ro1 by (rule RingBuffer_find_char_ge)
  ultimately show ?thesis using c(1) mx by simp
qed

lemma find_sequence_body_decreases:
  assumes "find_sequence_body cmpr params v = Some (False, v1)"
  shows "find_sequence_measure (c_history_log_2 cmpr) v1 < find_sequence_measure (c_history_log_2 cmpr) v"
proof (cases "fv_read_size v = 0")
  case False
  then show ?thesis
    using assms unfolding find_sequence_body_def find_sequence_measure_def find_sequence_next_def
    by (auto simp: Let_def split: prod.splits if_splits)
next
  case True
  then obtain r where r: "find_sequence_search cmpr params v = Some r"
    using assms unfolding find_sequence_body_def by (auto split: option.splits)
  show ?thesis
  proof (cases r)
    case (Break x)
    then show ?thesis using assms r True unfolding find_sequence_body_def by simp
  next
    case (Continue x)
    with find_sequence_search_offset[OF r] have "fv_read_offset v \<le> fv_read_offset x"
      "fv_read_offset v + 1 < push_bit (c_history_log_2 cmpr) 1" by auto
    then show ?thesis
      using assms r True Continue
      unfolding find_sequence_body_def find_sequence_measure_def find_sequence_next_def
      by auto
  next
    case (Proceed x)
    with find_sequence_search_offset[OF r] have "fv_read_offset v \<le> fv_read_offset x"
      "fv_read_offset v + 1 < push_bit (c_history_log_2 cmpr) 1" by auto
    then show ?thesis
      using assms r True Proceed
      unfolding find_sequence_body_def find_sequence_measure_def find_sequence_next_def
      by (auto simp: Let_def split: prod.splits if_splits)
  qed
qed

function find_sequence_loop :: "GKeyComp \<Rightarrow> GKeyParameters \<Rightarrow> find_vars \<Rightarrow> find_vars option" where
  "find_sequence_loop cmpr params v =
     (case find_sequence_body cmpr params v of
        None \<Rightarrow> None
      | Some (leave, v1) \<Rightarrow> if leave then Some v1 else find_sequence_loop cmpr params v1)"
  by pat_completeness auto
termination
  by (relation "measure (\<lambda>(cmpr, params, v). find_sequence_measure (c_history_log_2 cmpr) v)")
     (auto simp: find_sequence_body_decreases)

declare find_sequence_loop.simps [simp del]

definition find_sequence ::
  "GKeyComp \<Rightarrow> GKeyParameters \<Rightarrow> (bool \<times> GKeyComp \<times> GKeyParameters) option" where
  "find_sequence cmpr params =
     (case find_sequence_loop cmpr params
             \<lparr>fv_read_offset = c_read_offset cmpr, fv_read_size = c_read_size cmpr,
              fv_max_read_size = c_max_read_size cmpr, fv_best_read_size = c_best_read_size cmpr,
              fv_best_read_offset = c_best_read_offset cmpr, fv_consumed = 0\<rparr> of
        None \<Rightarrow> None
      | Some v \<Rightarrow>
          let cmpr1 = cmpr\<lparr>c_in_total := c_in_total cmpr + fv_consumed v,
                           c_best_read_offset := fv_best_read_offset v\<rparr>;
              params1 = params\<lparr>in_buffer := drop (fv_consumed v) (in_buffer params),
                               in_size := in_size params - fv_consumed v\<rparr>;
              success = (fv_best_read_size v \<ge> fv_max_read_size v);
              cmpr2 = (if success
                       then cmpr1\<lparr>c_read_size := fv_best_read_size v,
                                  c_read_offset := c_best_read_offset cmpr1\<rparr>
                       else cmpr1\<lparr>c_read_size := fv_read_size v,
                                  c_read_offset := fv_read_offset v\<rparr>)
          in Some (success,
                   cmpr2\<lparr>c_max_read_size := fv_max_read_size v,
                         c_best_read_size := fv_best_read_size v\<rparr>,
                   params1))"

text \<open>
  One function for each case label of the \<open>switch\<close> of \<open>gkeycomp_compress\<close>.  Each
  returns the status, the \<open>input\<close> flag and the local \<open>state\<close> with which the
  \<open>switch\<close> is left, and the updated objects.
\<close>

type_synonym comp_result = "GKeyStatus \<times> bool \<times> GKeyCompState \<times> GKeyComp \<times> GKeyParameters"

definition comp_Flush :: "GKeyComp \<Rightarrow> GKeyParameters \<Rightarrow> comp_result" where
  "comp_Flush cmpr params =
     (case write_bits cmpr params UINT_MAX 0 of
        (ok, cmpr1, params1) \<Rightarrow>
          (if ok then GKeyStatus_Finished else GKeyStatus_BufferOverflow,
           True, GKeyCompState_Flush, cmpr1, params1))"

definition comp_PutBytes :: "GKeyComp \<Rightarrow> GKeyParameters \<Rightarrow> comp_result" where
  "comp_PutBytes cmpr params =
     (case RingBuffer_copy (c_history cmpr) (Some comp_ring_writer) (cmpr, params)
             (c_read_offset cmpr) (c_read_size cmpr) of
        (copied, ring1, (cmpr1, params1)) \<Rightarrow>
          let cmpr2 = cmpr1\<lparr>c_history := ring1\<rparr>
          in if copied \<ge> c_read_size cmpr2 then
               (GKeyStatus_OK, True, GKeyCompState_NextSequence, cmpr2, params1)
             else
               (GKeyStatus_BufferOverflow, True, GKeyCompState_PutBytes,
                cmpr2\<lparr>c_read_size := c_read_size cmpr2 - copied\<rparr>, params1))"

definition comp_PutByte :: "GKeyComp \<Rightarrow> GKeyParameters \<Rightarrow> comp_result" where
  "comp_PutByte cmpr params =
     (let in_buffer0 = in_buffer params
      in case write_bits cmpr params (CHAR_BIT + 1) (push_bit 1 (unat (in_buffer0 ! 0))) of
           (ok, cmpr1, params1) \<Rightarrow>
             if ok then
               (GKeyStatus_OK, True, GKeyCompState_NextSequence,
                cmpr1\<lparr>c_history := RingBuffer_write (c_history cmpr1) (Caller (in_buffer params1)) 1,
                      c_in_total := c_in_total cmpr1 + 1\<rparr>,
                params1\<lparr>in_buffer := drop 1 in_buffer0, in_size := in_size params1 - 1\<rparr>)
             else
               (GKeyStatus_BufferOverflow, True, GKeyCompState_PutByte, cmpr1, params1))"

definition comp_PutSize :: "GKeyComp \<Rightarrow> GKeyParameters \<Rightarrow> comp_result" where
  "comp_PutSize cmpr params =
     (let nbits = GKey_get_read_size_bits (c_history_log_2 cmpr) (c_read_offset cmpr)
      in case write_bits cmpr params nbits (c_read_size cmpr) of
           (ok, cmpr1, params1) \<Rightarrow>
             if ok then
               (case RingBuffer_copy (c_history cmpr1) None ()
                       (c_read_offset cmpr1) (c_read_size cmpr1) of
                  (copied, ring1, u) \<Rightarrow>
                    (GKeyStatus_OK, True, GKeyCompState_NextSequence,
                     cmpr1\<lparr>c_history := ring1\<rparr>, params1))
             else
               (GKeyStatus_BufferOverflow, True, GKeyCompState_PutSize, cmpr1, params1))"

definition comp_PutOffset :: "GKeyComp \<Rightarrow> GKeyParameters \<Rightarrow> comp_result" where
  "comp_PutOffset cmpr params =
     (case write_bits cmpr params (c_history_log_2 cmpr + 1)
             (push_bit 1 (c_read_offset cmpr) OR 1) of
        (ok, cmpr1, params1) \<Rightarrow>
          if ok then comp_PutSize cmpr1 params1
          else (GKeyStatus_BufferOverflow, True, GKeyCompState_PutOffset, cmpr1, params1))"

text \<open>
  The part of case \<open>FindSequence\<close> that is run once the longest sequence is known
  (\<open>flush || find_sequence(comp, params)\<close> was true).
\<close>

definition comp_Found :: "bool \<Rightarrow> GKeyComp \<Rightarrow> GKeyParameters \<Rightarrow> comp_result" where
  "comp_Found flush cmpr params =
     (if c_read_size cmpr = 0 then
        if in_size params > 0 then
          (GKeyStatus_OK, True, GKeyCompState_PutByte, cmpr, params)
        else if flush then
          (GKeyStatus_OK, True, GKeyCompState_Flush, cmpr, params)
        else
          (GKeyStatus_OK, False, GKeyCompState_FindSequence, cmpr, params)
      else
        let nbits = GKey_get_read_size_bits (c_history_log_2 cmpr) (c_read_offset cmpr)
        in if c_read_size cmpr * (CHAR_BIT + 1) < c_history_log_2 cmpr + nbits + 1
           then (GKeyStatus_OK, True, GKeyCompState_PutBytes, cmpr, params)
           else comp_PutOffset cmpr params)"

definition comp_FindSequence :: "bool \<Rightarrow> GKeyComp \<Rightarrow> GKeyParameters \<Rightarrow> comp_result option" where
  "comp_FindSequence flush cmpr params =
     (if flush then Some (comp_Found flush cmpr params)
      else case find_sequence cmpr params of
             None \<Rightarrow> None
           | Some (success, cmpr1, params1) \<Rightarrow>
               if success then Some (comp_Found flush cmpr1 params1)
               else Some (GKeyStatus_OK, False, GKeyCompState_FindSequence, cmpr1, params1))"

text \<open>
  Case \<open>Progress\<close> is entered with \<open>state\<close> either \<open>Progress\<close> or, by falling through,
  \<open>NextSequence\<close>; it leaves \<open>state\<close> as it found it when the callback asks to stop.
  Its first argument is that value of \<open>state\<close>.
\<close>

definition comp_Progress ::
  "GKeyCompState \<Rightarrow> bool \<Rightarrow> GKeyComp \<Rightarrow> GKeyParameters \<Rightarrow> comp_result option" where
  "comp_Progress st flush cmpr params =
     (case prog_cb params of
        Some cb \<Rightarrow>
          if cb (c_in_total cmpr) (c_out_total cmpr) then comp_FindSequence flush cmpr params
          else Some (GKeyStatus_Aborted, True, st, cmpr, params)
      | None \<Rightarrow> comp_FindSequence flush cmpr params)"

definition comp_NextSequence :: "bool \<Rightarrow> GKeyComp \<Rightarrow> GKeyParameters \<Rightarrow> comp_result option" where
  "comp_NextSequence flush cmpr params =
     comp_Progress GKeyCompState_NextSequence flush
       (cmpr\<lparr>c_best_read_size := 0, c_best_read_offset := 0, c_read_size := 0, c_read_offset := 0\<rparr>)
       params"

definition comp_switch ::
  "bool \<Rightarrow> GKeyCompState \<Rightarrow> GKeyComp \<Rightarrow> GKeyParameters \<Rightarrow> comp_result option" where
  "comp_switch flush st cmpr params =
     (case st of
        GKeyCompState_NextSequence \<Rightarrow> comp_NextSequence flush cmpr params
      | GKeyCompState_Progress \<Rightarrow> comp_Progress GKeyCompState_Progress flush cmpr params
      | GKeyCompState_FindSequence \<Rightarrow> comp_FindSequence flush cmpr params
      | GKeyCompState_PutOffset \<Rightarrow> Some (comp_PutOffset cmpr params)
      | GKeyCompState_PutSize \<Rightarrow> Some (comp_PutSize cmpr params)
      | GKeyCompState_PutByte \<Rightarrow> Some (comp_PutByte cmpr params)
      | GKeyCompState_PutBytes \<Rightarrow> Some (comp_PutBytes cmpr params)
      | GKeyCompState_Flush \<Rightarrow> Some (comp_Flush cmpr params))"

text \<open>
  The \<open>do ... while (status == GKeyStatus_OK && input)\<close> loop; a partial function,
  whose value is \<open>None\<close> when the source does not return.
\<close>

partial_function (option) comp_loop ::
  "bool \<Rightarrow> GKeyCompState \<times> GKeyComp \<times> GKeyParameters \<Rightarrow>
   (GKeyStatus \<times> GKeyComp \<times> GKeyParameters) option" where
  "comp_loop flush v =
     (case v of (st, cmpr, params) \<Rightarrow>
        (case comp_switch flush st cmpr params of
           None \<Rightarrow> None
         | Some (status, input, st1, cmpr1, params1) \<Rightarrow>
             if status = GKeyStatus_OK \<and> input then comp_loop flush (st1, cmpr1, params1)
             else Some (status, cmpr1\<lparr>c_state := st1\<rparr>, params1)))"

definition gkeycomp_make :: "nat \<Rightarrow> GKeyComp" where
  "gkeycomp_make k =
     \<lparr>c_state = GKeyCompState_Progress, c_in_total = 0, c_out_total = 0, c_out_pos = 0,
      c_max_read_size = 0, c_best_read_offset = 0, c_best_read_size = 0, c_read_offset = 0,
      c_read_size = 0, c_acc = 0, c_acc_nbits = 0, c_history_log_2 = k,
      c_history = RingBuffer_make k\<rparr>"

definition gkeycomp_reset :: "GKeyComp \<Rightarrow> GKeyComp" where
  "gkeycomp_reset cmpr =
     cmpr\<lparr>c_state := GKeyCompState_Progress, c_in_total := 0, c_out_total := 0, c_out_pos := 0,
          c_max_read_size := 0, c_best_read_offset := 0, c_best_read_size := 0,
          c_read_offset := 0, c_read_size := 0, c_acc := 0, c_acc_nbits := 0,
          c_history := RingBuffer_reset (c_history cmpr)\<rparr>"

definition gkeycomp_compress ::
  "GKeyComp \<Rightarrow> GKeyParameters \<Rightarrow> (GKeyStatus \<times> GKeyComp \<times> GKeyParameters) option" where
  "gkeycomp_compress cmpr params =
     comp_loop (in_size params = 0) (c_state cmpr, cmpr, params)"

declare comp_loop.simps [code]

section \<open>The copy-length bit width\<close>

text \<open>
  Claim C5.  For every history size \<open>k\<close> and every copy offset \<open>r\<close>,
  \<open>GKey_get_read_size_bits k r\<close> is one less than \<open>k\<close> exactly when \<open>k > 0\<close> and
  \<open>r \<ge> 1 << (k - 1)\<close>, and is \<open>k\<close> otherwise.  The comparison is \<open>\<ge>\<close>: with
  \<open>k = 9\<close> the offset 256 already gets 8 size bits, while 255 gets 9.  (``One less than
  \<open>k\<close>'' is written \<open>result + 1 = k\<close>, since 0 has no predecessor among the naturals.)
  A history size is at most \<open>MaxHistoryLog2 = 24\<close>; the statement holds up to 32, as long as
  the shift \<open>1u << (k - 1)\<close> is one that an \<open>unsigned int\<close> of 32 bits can hold.
\<close>

theorem read_size_bits_format:
  assumes "k \<le> 32"
  shows "GKey_get_read_size_bits k r = (if 0 < k \<and> 2 ^ (k - 1) \<le> r then k - 1 else k) \<and>
   (GKey_get_read_size_bits k r + 1 = k) = (0 < k \<and> 2 ^ (k - 1) \<le> r) \<and>
   (GKey_get_read_size_bits k r = k) = (k = 0 \<or> r < 2 ^ (k - 1)) \<and>
   GKey_get_read_size_bits 9 256 = 8 \<and> GKey_get_read_size_bits 9 255 = 9"
proof -
  have a: "GKey_get_read_size_bits k r = (if 0 < k \<and> 2 ^ (k - 1) \<le> r then k - 1 else k)"
    using assms by (rule GKey_get_read_size_bits_legal)
  have b: "GKey_get_read_size_bits 9 256 = 8" "GKey_get_read_size_bits 9 255 = 9"
    by (simp_all add: GKey_get_read_size_bits_legal)
  show ?thesis
    unfolding a using b by auto
qed

theorem read_size_bits_format_witness:
  "(24::nat) \<le> 32 \<and> GKey_get_read_size_bits 24 (2 ^ 23) = 23 \<and>
   GKey_get_read_size_bits 24 (2 ^ 23 - 1) = 24 \<and>
   (GKey_get_read_size_bits 24 (2 ^ 23) + 1 = 24) \<and>
   (0::nat) \<le> 32 \<and> GKey_get_read_size_bits 0 5 = 0"
  using read_size_bits_format[of 24 "2 ^ 23"] read_size_bits_format[of 24 "2 ^ 23 - 1"]
    read_size_bits_format[of 0 5]
  by simp

section \<open>The decompressor at the end of its input\<close>

lemma read_bits_loop_stop:
  "\<not> accn < nbits \<or> insz = 0 \<Longrightarrow>
   read_bits_loop nbits inb insz intot acc accn = (\<not> accn < nbits, inb, insz, intot, acc, accn)"
  by (subst read_bits_loop.simps) auto

lemma read_bits_exhausted:
  "d_acc_nbits d < nbits \<Longrightarrow> in_size p = 0 \<Longrightarrow> read_bits d p nbits = (None, d, p)"
  by (simp add: read_bits_def read_bits_loop_stop)

lemma decomp_loop_stop:
  "decomp_switch st d p = Some (status, stop, st1, d1, p1) \<Longrightarrow>
   \<not> (status = GKeyStatus_OK \<and> \<not> stop) \<Longrightarrow>
   decomp_loop (st, d, p) = Some (status, d1\<lparr>d_state := st1\<rparr>, p1)"
  by (subst decomp_loop.simps) auto

lemma decomp_loop_continue:
  "decomp_switch st d p = Some (GKeyStatus_OK, False, st1, d1, p1) \<Longrightarrow>
   decomp_loop (st, d, p) = decomp_loop (st1, d1, p1)"
  by (subst decomp_loop.simps) auto

lemma decomp_loop_abort:
  "decomp_switch st d p = None \<Longrightarrow> decomp_loop (st, d, p) = None"
  by (subst decomp_loop.simps) auto

lemma decomp_GetType_exhausted:
  "d_acc d = 0 \<Longrightarrow> d_acc_nbits d = 0 \<Longrightarrow> in_size p = 0 \<Longrightarrow>
   decomp_loop (GKeyDecompState_GetType, d, p) =
     Some (GKeyStatus_OK, d\<lparr>d_state := GKeyDecompState_GetType\<rparr>, p)"
  by (rule decomp_loop_stop[where stop=True])
     (simp_all add: decomp_switch_def decomp_GetType_def read_bits_exhausted)

lemma decomp_GetByte_exhausted:
  assumes "d_acc_nbits d < CHAR_BIT" "in_size p = 0"
  shows "decomp_loop (GKeyDecompState_GetByte, d, p) =
     Some (if d_acc d = 0 then GKeyStatus_OK else GKeyStatus_TruncatedInput,
           d\<lparr>d_state := GKeyDecompState_GetByte\<rparr>, p)"
proof (cases "d_acc d = 0")
  case True
  then show ?thesis
    by (simp add: decomp_loop_stop[where stop=True and status=GKeyStatus_OK]
        decomp_switch_def decomp_GetByte_def read_bits_exhausted assms)
next
  case False
  then show ?thesis
    by (simp add: decomp_loop_stop[where stop=False and status=GKeyStatus_TruncatedInput]
        decomp_switch_def decomp_GetByte_def read_bits_exhausted assms)
qed

text \<open>No case of the \<open>switch\<close> assigns \<open>Finished\<close>.\<close>

lemma decomp_PutByte_not_Finished: "fst (decomp_PutByte d p) \<noteq> GKeyStatus_Finished"
  by (simp add: decomp_PutByte_def split: prod.splits)

lemma decomp_GetByte_not_Finished: "fst (decomp_GetByte d p) \<noteq> GKeyStatus_Finished"
  using decomp_PutByte_not_Finished
  by (simp add: decomp_GetByte_def split: prod.splits option.splits)

lemma decomp_CopyData_not_Finished: "fst (decomp_CopyData d p) \<noteq> GKeyStatus_Finished"
  by (simp add: decomp_CopyData_def Let_def split: prod.splits)

lemma decomp_GetSize_not_Finished: "fst (decomp_GetSize d p) \<noteq> GKeyStatus_Finished"
  using decomp_CopyData_not_Finished
  by (simp add: decomp_GetSize_def Let_def split: prod.splits option.splits)

lemma decomp_GetOffset_not_Finished: "fst (decomp_GetOffset d p) \<noteq> GKeyStatus_Finished"
  using decomp_GetSize_not_Finished
  by (simp add: decomp_GetOffset_def split: prod.splits option.splits)

lemma decomp_GetType_not_Finished:
  "decomp_GetType d p = Some r \<Longrightarrow> fst r \<noteq> GKeyStatus_Finished"
  using decomp_GetOffset_not_Finished
  by (auto simp: decomp_GetType_def split: prod.splits option.splits if_splits)

lemma decomp_switch_not_Finished:
  "decomp_switch st d p = Some r \<Longrightarrow> fst r \<noteq> GKeyStatus_Finished"
  using decomp_GetType_not_Finished[of d p r] decomp_GetOffset_not_Finished[of d p]
    decomp_GetSize_not_Finished[of d p] decomp_CopyData_not_Finished[of d p]
    decomp_GetByte_not_Finished[of d p] decomp_PutByte_not_Finished[of d p]
  by (cases st) (auto simp: decomp_switch_def decomp_Progress_def split: option.splits if_splits)

lemma decomp_loop_not_Finished:
  "decomp_loop (st, d, p) = Some (status, d1, p1) \<Longrightarrow> status \<noteq> GKeyStatus_Finished"
proof (induction "(st, d, p)" arbitrary: st d p rule: decomp_loop.induct)
  case (1 st d p)
  obtain s stop st' d' p' where sw: "decomp_switch st d p = Some (s, stop, st', d', p')"
    using "1.prems" by (subst (asm) decomp_loop.simps) (auto split: option.splits)
  show ?case
  proof (cases "s = GKeyStatus_OK \<and> \<not> stop")
    case True
    then have "decomp_loop (st', d', p') = Some (status, d1, p1)"
      using "1.prems" by (subst (asm) decomp_loop.simps) (simp add: sw)
    from "1.hyps"[OF sw refl refl refl refl True this] show ?thesis .
  next
    case False
    then have "status = s"
      using "1.prems" by (subst (asm) decomp_loop.simps) (auto simp: sw)
    then show ?thesis using decomp_switch_not_Finished[OF sw] by simp
  qed
qed

text \<open>
  Claim C2, as amended.  The claim has the decompressor return \<open>Finished\<close> at a graceful
  end of stream; the source only sets \<open>stop\<close> there and leaves the status
  \<open>GKeyStatus_OK\<close>, and no path of \<open>gkeydecomp_decompress\<close> assigns \<open>Finished\<close>.  What
  holds: when a token-type bit is needed (state \<open>GetType\<close>), the accumulator is empty and
  the input is exhausted, the call returns \<open>OK\<close> and stays in \<open>GetType\<close>; when a literal
  byte is needed (state \<open>GetByte\<close>), fewer than 8 bits are buffered and the input is
  exhausted, it returns \<open>OK\<close> if the accumulator is exactly zero and \<open>TruncatedInput\<close>
  otherwise, and stays in \<open>GetByte\<close>.  Decompressor and parameter block are otherwise
  unchanged.  Whatever the state and the input, the status returned is never \<open>Finished\<close>.
\<close>

theorem decomp_end_of_input:
  "(d_acc d = 0 \<and> d_acc_nbits d = 0 \<and> in_size p = 0 \<longrightarrow>
      decomp_loop (GKeyDecompState_GetType, d, p) =
        Some (GKeyStatus_OK, d\<lparr>d_state := GKeyDecompState_GetType\<rparr>, p)) \<and>
   (d_acc_nbits d < CHAR_BIT \<and> in_size p = 0 \<longrightarrow>
      decomp_loop (GKeyDecompState_GetByte, d, p) =
        Some (if d_acc d = 0 then GKeyStatus_OK else GKeyStatus_TruncatedInput,
              d\<lparr>d_state := GKeyDecompState_GetByte\<rparr>, p)) \<and>
   (d_state d = GKeyDecompState_GetType \<and> d_acc d = 0 \<and> d_acc_nbits d = 0 \<and> in_size p = 0 \<longrightarrow>
      gkeydecomp_decompress d p = Some (GKeyStatus_OK, d, p)) \<and>
   (d_state d = GKeyDecompState_GetByte \<and> d_acc_nbits d < CHAR_BIT \<and> in_size p = 0 \<longrightarrow>
      gkeydecomp_decompress d p =
        Some (if d_acc d = 0 then GKeyStatus_OK else GKeyStatus_TruncatedInput, d, p)) \<and>
   gkeydecomp_decompress d0 p0 \<noteq> Some (GKeyStatus_Finished, d1, p1)"
proof -
  have "gkeydecomp_decompress d0 p0 \<noteq> Some (GKeyStatus_Finished, d1, p1)"
    using decomp_loop_not_Finished[of "d_state d0" d0 p0 GKeyStatus_Finished d1 p1]
    by (auto simp: gkeydecomp_decompress_def)
  then show ?thesis
    using decomp_GetType_exhausted[of d p] decomp_GetByte_exhausted[of d p]
    by (auto simp: gkeydecomp_decompress_def)
qed

definition no_input :: GKeyParameters where
  "no_input = \<lparr>in_buffer = [], in_size = 0, out_buffer = Some [], out_size = 0, prog_cb = None\<rparr>"

theorem decomp_end_of_input_witness:
  "decomp_loop (GKeyDecompState_GetType, gkeydecomp_make 9, no_input) =
     Some (GKeyStatus_OK, (gkeydecomp_make 9)\<lparr>d_state := GKeyDecompState_GetType\<rparr>, no_input) \<and>
   decomp_loop (GKeyDecompState_GetByte, (gkeydecomp_make 9)\<lparr>d_acc := 1, d_acc_nbits := 3\<rparr>, no_input) =
     Some (GKeyStatus_TruncatedInput,
      (gkeydecomp_make 9)\<lparr>d_acc := 1, d_acc_nbits := 3, d_state := GKeyDecompState_GetByte\<rparr>, no_input) \<and>
   gkeydecomp_decompress ((gkeydecomp_make 9)\<lparr>d_state := GKeyDecompState_GetType\<rparr>) no_input =
     Some (GKeyStatus_OK, (gkeydecomp_make 9)\<lparr>d_state := GKeyDecompState_GetType\<rparr>, no_input) \<and>
   gkeydecomp_decompress ((gkeydecomp_make 9)\<lparr>d_state := GKeyDecompState_GetByte, d_acc_nbits := 7\<rparr>) no_input =
     Some (GKeyStatus_OK, (gkeydecomp_make 9)\<lparr>d_state := GKeyDecompState_GetByte, d_acc_nbits := 7\<rparr>, no_input)"
  using decomp_end_of_input[of "gkeydecomp_make 9" no_input]
    decomp_end_of_input[of "(gkeydecomp_make 9)\<lparr>d_acc := 1, d_acc_nbits := 3\<rparr>" no_input]
    decomp_end_of_input[of "(gkeydecomp_make 9)\<lparr>d_state := GKeyDecompState_GetType\<rparr>" no_input]
    decomp_end_of_input[of "(gkeydecomp_make 9)\<lparr>d_state := GKeyDecompState_GetByte, d_acc_nbits := 7\<rparr>" no_input]
  by (simp add: gkeydecomp_make_def no_input_def)

text \<open>
  The claim as stated fails: a decompressor waiting for a type bit with an empty
  accumulator and no input returns \<open>OK\<close>, not \<open>Finished\<close>; so does one waiting for a
  literal byte with seven zero bits buffered.
\<close>

theorem decomp_end_of_input_counterexample:
  "d_state ((gkeydecomp_make 9)\<lparr>d_state := GKeyDecompState_GetType\<rparr>) = GKeyDecompState_GetType \<and>
   d_acc (gkeydecomp_make 9) = 0 \<and> in_size no_input = 0 \<and>
   map_option fst
     (gkeydecomp_decompress ((gkeydecomp_make 9)\<lparr>d_state := GKeyDecompState_GetType\<rparr>) no_input)
     = Some GKeyStatus_OK \<and>
   map_option fst
     (gkeydecomp_decompress ((gkeydecomp_make 9)\<lparr>d_state := GKeyDecompState_GetType\<rparr>) no_input)
     \<noteq> Some GKeyStatus_Finished \<and>
   map_option fst
     (gkeydecomp_decompress ((gkeydecomp_make 9)\<lparr>d_state := GKeyDecompState_GetByte, d_acc_nbits := 7\<rparr>) no_input)
     = Some GKeyStatus_OK"
  using decomp_GetType_exhausted[of "(gkeydecomp_make 9)\<lparr>d_state := GKeyDecompState_GetType\<rparr>" no_input]
    decomp_GetByte_exhausted[of "(gkeydecomp_make 9)\<lparr>d_state := GKeyDecompState_GetByte, d_acc_nbits := 7\<rparr>" no_input]
  by (simp add: gkeydecomp_decompress_def gkeydecomp_make_def no_input_def)

section \<open>Validation of a copy token\<close>

lemma read_bits_frame:
  "read_bits d p n = (r, d1, p1) \<Longrightarrow>
   d_read_offset d1 = d_read_offset d \<and> d_read_size d1 = d_read_size d \<and>
   d_history_log_2 d1 = d_history_log_2 d \<and> d_history d1 = d_history d \<and>
   d_literal d1 = d_literal d \<and> d_out_total d1 = d_out_total d \<and> d_state d1 = d_state d \<and>
   out_buffer p1 = out_buffer p \<and> out_size p1 = out_size p \<and> prog_cb p1 = prog_cb p"
  unfolding read_bits_def
  by (auto simp: Let_def split: prod.splits if_splits)

lemma decomp_CopyData_status:
  "fst (decomp_CopyData d p) = GKeyStatus_OK \<or> fst (decomp_CopyData d p) = GKeyStatus_BufferOverflow"
  unfolding decomp_CopyData_def
  by (simp add: Let_def split: prod.splits)

text \<open>
  Claim C3.  In state \<open>GetSize\<close>, once the size field has been read (\<open>read_bits\<close>
  returned \<open>bits\<close>), the pass through the \<open>switch\<close> ends with status \<open>BadInput\<close>
  exactly when \<open>bits\<close> is 0 or \<open>read_offset + bits\<close> exceeds \<open>1 << history_log_2\<close>; the
  call then returns \<open>BadInput\<close> in state \<open>GetSize\<close>.  Otherwise the pass is the
  \<open>CopyData\<close> step run with \<open>read_size = bits\<close> on the unchanged offset and ring.
\<close>

theorem decomp_GetSize_validation:
  assumes "read_bits d p (GKey_get_read_size_bits (d_history_log_2 d) (d_read_offset d)) =
             (Some bits, d1, p1)"
  shows "(map_option fst (decomp_switch GKeyDecompState_GetSize d p) = Some GKeyStatus_BadInput) =
           (bits = 0 \<or> d_read_offset d + bits > 2 ^ d_history_log_2 d) \<and>
         (if bits = 0 \<or> d_read_offset d + bits > 2 ^ d_history_log_2 d
          then decomp_loop (GKeyDecompState_GetSize, d, p) =
                 Some (GKeyStatus_BadInput, d1\<lparr>d_state := GKeyDecompState_GetSize\<rparr>, p1)
          else decomp_switch GKeyDecompState_GetSize d p =
                 Some (decomp_CopyData (d1\<lparr>d_read_size := bits\<rparr>) p1) \<and>
               d_read_offset d1 = d_read_offset d \<and> d_history d1 = d_history d)"
proof -
  note f = read_bits_frame[OF assms]
  show ?thesis
  proof (cases "bits = 0 \<or> d_read_offset d + bits > 2 ^ d_history_log_2 d")
    case True
    then have sw: "decomp_switch GKeyDecompState_GetSize d p =
        Some (GKeyStatus_BadInput, False, GKeyDecompState_GetSize, d1, p1)"
      using f by (auto simp: decomp_switch_def decomp_GetSize_def assms)
    show ?thesis
      using True decomp_loop_stop[OF sw] by (simp add: sw)
  next
    case False
    then have sw: "decomp_switch GKeyDecompState_GetSize d p =
        Some (decomp_CopyData (d1\<lparr>d_read_size := bits\<rparr>) p1)"
      using f by (auto simp: decomp_switch_def decomp_GetSize_def assms)
    show ?thesis
      using False f decomp_CopyData_status[of "d1\<lparr>d_read_size := bits\<rparr>" p1]
      by (auto simp: sw)
  qed
qed


theorem decomp_GetSize_validation_witness:
  "map_option fst (decomp_switch GKeyDecompState_GetSize
          ((gkeydecomp_make 9)\<lparr>d_acc := 0, d_acc_nbits := 9\<rparr>) no_input) = Some GKeyStatus_BadInput \<and>
   decomp_loop (GKeyDecompState_GetSize, (gkeydecomp_make 9)\<lparr>d_acc := 0, d_acc_nbits := 9\<rparr>, no_input) =
     Some (GKeyStatus_BadInput,
      (gkeydecomp_make 9)\<lparr>d_acc := 0, d_acc_nbits := 0, d_state := GKeyDecompState_GetSize\<rparr>,
      no_input) \<and>
   map_option fst (decomp_switch GKeyDecompState_GetSize
          ((gkeydecomp_make 9)\<lparr>d_acc := 3, d_acc_nbits := 9\<rparr>) no_input) \<noteq> Some GKeyStatus_BadInput \<and>
   decomp_switch GKeyDecompState_GetSize ((gkeydecomp_make 9)\<lparr>d_acc := 3, d_acc_nbits := 9\<rparr>) no_input =
     Some (decomp_CopyData ((gkeydecomp_make 9)\<lparr>d_acc := 0, d_acc_nbits := 0, d_read_size := 3\<rparr>) no_input)"
proof -
  have r0: "read_bits ((gkeydecomp_make 9)\<lparr>d_acc := 0, d_acc_nbits := 9\<rparr>) no_input
      (GKey_get_read_size_bits (d_history_log_2 ((gkeydecomp_make 9)\<lparr>d_acc := 0, d_acc_nbits := 9\<rparr>))
         (d_read_offset ((gkeydecomp_make 9)\<lparr>d_acc := 0, d_acc_nbits := 9\<rparr>))) =
    (Some 0, (gkeydecomp_make 9)\<lparr>d_acc := 0, d_acc_nbits := 0\<rparr>, no_input)"
    by (simp add: read_bits_def read_bits_loop_stop gkeydecomp_make_def no_input_def
        GKey_get_read_size_bits_legal)
  have r3: "read_bits ((gkeydecomp_make 9)\<lparr>d_acc := 3, d_acc_nbits := 9\<rparr>) no_input
      (GKey_get_read_size_bits (d_history_log_2 ((gkeydecomp_make 9)\<lparr>d_acc := 3, d_acc_nbits := 9\<rparr>))
         (d_read_offset ((gkeydecomp_make 9)\<lparr>d_acc := 3, d_acc_nbits := 9\<rparr>))) =
    (Some 3, (gkeydecomp_make 9)\<lparr>d_acc := 0, d_acc_nbits := 0\<rparr>, no_input)"
    by (simp add: read_bits_def read_bits_loop_stop gkeydecomp_make_def no_input_def
        GKey_get_read_size_bits_legal drop_bit_eq_div)
  show ?thesis
    using decomp_GetSize_validation[OF r0] decomp_GetSize_validation[OF r3]
      decomp_CopyData_status[of "(gkeydecomp_make 9)\<lparr>d_acc := 0, d_acc_nbits := 0, d_read_size := 3\<rparr>" no_input]
    by (auto simp: gkeydecomp_make_def)
qed

section \<open>Statuses and the states that follow them in the compressor\<close>

lemma write_bits_loop_accn:
  "write_bits_loop v = (ok, ob1, os1, ot1, acc1, accn1) \<Longrightarrow>
   accn1 mod 8 = snd (snd (snd (snd v))) mod 8 \<and> accn1 \<le> snd (snd (snd (snd v))) \<and>
   (ok \<longrightarrow> accn1 < 8)"
proof (induction v arbitrary: ok ob1 os1 ot1 acc1 accn1 rule: write_bits_loop.induct)
  case (1 outb outsz outtot acc accn)
  show ?case
  proof (cases "8 \<le> accn \<and> \<not> (outb \<noteq> None \<and> outsz = 0)")
    case True
    obtain ob2 os2 ot2 acc2 where b: "write_bits_body (outb, outsz, outtot, acc, accn) =
        (ob2, os2, ot2, acc2, accn - 8)"
      by (cases outb) (auto simp: write_bits_body_def Let_def)
    have "write_bits_loop (write_bits_body (outb, outsz, outtot, acc, accn)) =
        (ok, ob1, os1, ot1, acc1, accn1)"
      using "1.prems" True by (subst (asm) write_bits_loop.simps) auto
    from "1.IH"[OF _ _ this] True show ?thesis
      by (auto simp: b le_mod_geq)
  next
    case False
    then show ?thesis
      using "1.prems" by (subst (asm) write_bits_loop.simps) (auto split: if_splits)
  qed
qed

lemma write_bits_loop_idle:
  "accn < 8 \<Longrightarrow> write_bits_loop (ob, os, ot, acc, accn) = (True, ob, os, ot, acc, accn)"
  by (subst write_bits_loop.simps) simp

lemma write_bits_flush_done:
  assumes "write_bits c p UINT_MAX 0 = (True, c1, p1)"
  shows "c_acc_nbits c1 = 0"
proof -
  define accn0 where "accn0 = (if c_acc_nbits c mod 8 \<noteq> 0
      then c_acc_nbits c + (8 - c_acc_nbits c mod 8) else c_acc_nbits c)"
  have m: "accn0 mod 8 = 0"
    unfolding accn0_def by (simp add: mod_simps) presburger
  obtain ob os ot acc accn where l:
    "write_bits_loop (out_buffer p, out_size p, c_out_total c, c_acc c, accn0) =
       (True, ob, os, ot, acc, accn)" and c1: "c_acc_nbits c1 = accn"
    using assms unfolding write_bits_def accn0_def
    by (auto simp: Let_def split: prod.splits if_splits)
  from write_bits_loop_accn[OF l] have "accn mod 8 = 0" "accn < 8" using m by simp_all
  then have "accn = 0" by (metis mod_less)
  then show ?thesis using c1 by simp
qed

lemma write_bits_flush_idle:
  "c_acc_nbits c = 0 \<Longrightarrow> write_bits c p UINT_MAX 0 = (True, c, p)"
  by (simp add: write_bits_def write_bits_loop_idle)

lemma comp_Flush_state: "fst (snd (snd (comp_Flush c p))) = GKeyCompState_Flush"
  by (simp add: comp_Flush_def split: prod.splits)

lemma comp_Flush_status:
  "fst (comp_Flush c p) = GKeyStatus_Finished \<or> fst (comp_Flush c p) = GKeyStatus_BufferOverflow"
  by (simp add: comp_Flush_def split: prod.splits)

lemma comp_Flush_Finished:
  "comp_Flush c p = (GKeyStatus_Finished, input, st1, c1, p1) \<Longrightarrow>
   st1 = GKeyCompState_Flush \<and> c_acc_nbits c1 = 0"
  by (auto simp: comp_Flush_def split: prod.splits if_splits dest: write_bits_flush_done)

lemma comp_PutBytes_status:
  "fst (comp_PutBytes c p) = GKeyStatus_OK \<or> fst (comp_PutBytes c p) = GKeyStatus_BufferOverflow"
  by (simp add: comp_PutBytes_def Let_def split: prod.splits)

lemma comp_PutByte_status:
  "fst (comp_PutByte c p) = GKeyStatus_OK \<or> fst (comp_PutByte c p) = GKeyStatus_BufferOverflow"
  by (simp add: comp_PutByte_def Let_def split: prod.splits)

lemma comp_PutSize_status:
  "fst (comp_PutSize c p) = GKeyStatus_OK \<or> fst (comp_PutSize c p) = GKeyStatus_BufferOverflow"
  by (simp add: comp_PutSize_def Let_def split: prod.splits)

lemma comp_PutOffset_status:
  "fst (comp_PutOffset c p) = GKeyStatus_OK \<or> fst (comp_PutOffset c p) = GKeyStatus_BufferOverflow"
  using comp_PutSize_status
  by (simp add: comp_PutOffset_def split: prod.splits)

lemma comp_Found_status:
  "fst (comp_Found flush c p) = GKeyStatus_OK \<or>
   fst (comp_Found flush c p) = GKeyStatus_BufferOverflow"
  using comp_PutOffset_status[of c p]
  by (simp add: comp_Found_def Let_def)

lemma comp_FindSequence_status:
  assumes a: "comp_FindSequence flush c p = Some r"
  shows "fst r = GKeyStatus_OK \<or> fst r = GKeyStatus_BufferOverflow"
proof (cases flush)
  case True
  then show ?thesis
    using a comp_Found_status[of flush c p] by (auto simp: comp_FindSequence_def)
next
  case False
  then obtain success c1 p1 where f: "find_sequence c p = Some (success, c1, p1)"
    using a by (auto simp: comp_FindSequence_def split: option.splits)
  show ?thesis
    using a False f comp_Found_status[of flush c1 p1]
    by (cases success) (auto simp: comp_FindSequence_def)
qed

lemma comp_Progress_status:
  "comp_Progress st flush c p = Some r \<Longrightarrow>
   fst r = GKeyStatus_OK \<or> fst r = GKeyStatus_BufferOverflow \<or> fst r = GKeyStatus_Aborted"
  by (auto simp: comp_Progress_def split: if_splits option.splits dest: comp_FindSequence_status)

definition comp_status_ok :: "GKeyStatus \<Rightarrow> bool" where
  "comp_status_ok status =
     (status = GKeyStatus_OK \<or> status = GKeyStatus_BufferOverflow \<or>
      status = GKeyStatus_Aborted \<or> status = GKeyStatus_Finished)"

lemma comp_switch_status:
  assumes "comp_switch flush st c p = Some r"
  shows "comp_status_ok (fst r)"
proof (cases st)
  case GKeyCompState_NextSequence
  then show ?thesis
    using assms comp_Progress_status[of GKeyCompState_NextSequence flush _ p r]
    by (auto simp: comp_switch_def comp_NextSequence_def comp_status_ok_def)
next
  case GKeyCompState_Progress
  then show ?thesis
    using assms comp_Progress_status[of GKeyCompState_Progress flush c p r]
    by (auto simp: comp_switch_def comp_status_ok_def)
next
  case GKeyCompState_FindSequence
  then show ?thesis
    using assms comp_FindSequence_status[of flush c p r]
    by (auto simp: comp_switch_def comp_status_ok_def)
next
  case GKeyCompState_PutOffset
  then show ?thesis
    using assms comp_PutOffset_status[of c p]
    by (auto simp: comp_switch_def comp_status_ok_def)
next
  case GKeyCompState_PutSize
  then show ?thesis
    using assms comp_PutSize_status[of c p]
    by (auto simp: comp_switch_def comp_status_ok_def)
next
  case GKeyCompState_PutByte
  then show ?thesis
    using assms comp_PutByte_status[of c p]
    by (auto simp: comp_switch_def comp_status_ok_def)
next
  case GKeyCompState_PutBytes
  then show ?thesis
    using assms comp_PutBytes_status[of c p]
    by (auto simp: comp_switch_def comp_status_ok_def)
next
  case GKeyCompState_Flush
  then show ?thesis
    using assms comp_Flush_status[of c p]
    by (auto simp: comp_switch_def comp_status_ok_def)
qed

lemma comp_switch_Finished:
  assumes "comp_switch flush st c p = Some (GKeyStatus_Finished, input, st1, c1, p1)"
  shows "st1 = GKeyCompState_Flush \<and> c_acc_nbits c1 = 0"
proof (cases st)
  case GKeyCompState_NextSequence
  then show ?thesis
    using assms comp_Progress_status[of GKeyCompState_NextSequence flush _ p "(GKeyStatus_Finished, input, st1, c1, p1)"]
    by (auto simp: comp_switch_def comp_NextSequence_def)
next
  case GKeyCompState_Progress
  then show ?thesis
    using assms comp_Progress_status[of GKeyCompState_Progress flush c p "(GKeyStatus_Finished, input, st1, c1, p1)"]
    by (auto simp: comp_switch_def)
next
  case GKeyCompState_FindSequence
  then show ?thesis
    using assms comp_FindSequence_status[of flush c p "(GKeyStatus_Finished, input, st1, c1, p1)"]
    by (auto simp: comp_switch_def)
next
  case GKeyCompState_PutOffset
  then show ?thesis
    using assms comp_PutOffset_status[of c p]
    by (auto simp: comp_switch_def)
next
  case GKeyCompState_PutSize
  then show ?thesis
    using assms comp_PutSize_status[of c p]
    by (auto simp: comp_switch_def)
next
  case GKeyCompState_PutByte
  then show ?thesis
    using assms comp_PutByte_status[of c p]
    by (auto simp: comp_switch_def)
next
  case GKeyCompState_PutBytes
  then show ?thesis
    using assms comp_PutBytes_status[of c p]
    by (auto simp: comp_switch_def)
next
  case GKeyCompState_Flush
  then show ?thesis
    using assms comp_Flush_Finished[of c p input st1 c1 p1]
    by (auto simp: comp_switch_def)
qed

lemma comp_loop_status:
  assumes "comp_loop flush v = Some y"
  shows "comp_status_ok (fst y)"
proof (rule comp_loop.raw_induct[where P="\<lambda>fl v y. comp_status_ok (fst y)", OF _ assms], goal_cases)
  case (1 comp_loop' flush v y)
  obtain st c p where v: "v = (st, c, p)" by (cases v)
  from 1(2) obtain r where r: "comp_switch flush st c p = Some r"
    by (auto simp: v split: option.splits)
  obtain status input st1 c1 p1 where rr: "r = (status, input, st1, c1, p1)" by (cases r)
  show ?case
  proof (cases "status = GKeyStatus_OK \<and> input")
    case True
    then have "comp_loop' flush (st1, c1, p1) = Some y"
      using 1(2) by (simp add: v r rr)
    then show ?thesis by (rule 1(1))
  next
    case False
    then have "y = (status, c1\<lparr>c_state := st1\<rparr>, p1)"
      using 1(2) by (auto simp: v r rr)
    then show ?thesis using comp_switch_status[OF r] by (simp add: rr)
  qed
qed

lemma comp_loop_Finished:
  assumes "comp_loop flush v = Some y"
  shows "fst y = GKeyStatus_Finished \<longrightarrow>
   c_state (fst (snd y)) = GKeyCompState_Flush \<and> c_acc_nbits (fst (snd y)) = 0"
proof (rule comp_loop.raw_induct[where P="\<lambda>fl v y. fst y = GKeyStatus_Finished \<longrightarrow>
   c_state (fst (snd y)) = GKeyCompState_Flush \<and> c_acc_nbits (fst (snd y)) = 0", OF _ assms], goal_cases)
  case (1 comp_loop' flush v y)
  obtain st c p where v: "v = (st, c, p)" by (cases v)
  from 1(2) obtain r where r: "comp_switch flush st c p = Some r"
    by (auto simp: v split: option.splits)
  obtain status input st1 c1 p1 where rr: "r = (status, input, st1, c1, p1)" by (cases r)
  show ?case
  proof (cases "status = GKeyStatus_OK \<and> input")
    case True
    then have "comp_loop' flush (st1, c1, p1) = Some y"
      using 1(2) by (simp add: v r rr)
    then show ?thesis by (rule 1(1))
  next
    case False
    then have y: "y = (status, c1\<lparr>c_state := st1\<rparr>, p1)"
      using 1(2) by (auto simp: v r rr)
    show ?thesis
      using comp_switch_Finished[of flush st c p input st1 c1 p1] r rr y by auto
  qed
qed

lemma comp_loop_Flush_idle:
  assumes "c_acc_nbits c = 0" "c_state c = GKeyCompState_Flush"
  shows "comp_loop flush (GKeyCompState_Flush, c, p) = Some (GKeyStatus_Finished, c, p)"
  using assms
  by (subst comp_loop.simps)
     (simp add: comp_switch_def comp_Flush_def write_bits_flush_idle)

text \<open>
  Claim C8.  Once \<open>gkeycomp_compress\<close> has returned \<open>Finished\<close>, every later call on the
  resulting compressor, with any parameter block (any input, any output window), returns
  \<open>Finished\<close> again and leaves both the compressor (so \<open>out_total\<close>) and the parameter
  block (so the output written and the input offered) exactly as they were.
\<close>

theorem compress_flush_idempotent:
  assumes "gkeycomp_compress c p = Some (GKeyStatus_Finished, c1, p1)"
  shows "gkeycomp_compress c1 p2 = Some (GKeyStatus_Finished, c1, p2)"
proof -
  have "c_state c1 = GKeyCompState_Flush \<and> c_acc_nbits c1 = 0"
    using comp_loop_Finished[of "in_size p = 0" "(c_state c, c, p)" "(GKeyStatus_Finished, c1, p1)"]
      assms by (simp add: gkeycomp_compress_def)
  then show ?thesis
    by (simp add: gkeycomp_compress_def comp_loop_Flush_idle)
qed

text \<open>
  Claim C9.  Whatever the compressor state and the parameter block, the status that
  \<open>gkeycomp_compress\<close> returns is never \<open>TruncatedInput\<close> or \<open>BadInput\<close>: it is one of
  \<open>OK\<close>, \<open>BufferOverflow\<close>, \<open>Aborted\<close> and \<open>Finished\<close>.
\<close>

theorem compress_status_range:
  assumes "gkeycomp_compress c p = Some (status, c1, p1)"
  shows "status \<noteq> GKeyStatus_TruncatedInput \<and> status \<noteq> GKeyStatus_BadInput \<and>
         (status = GKeyStatus_OK \<or> status = GKeyStatus_BufferOverflow \<or>
          status = GKeyStatus_Aborted \<or> status = GKeyStatus_Finished)"
  using comp_loop_status[of "in_size p = 0" "(c_state c, c, p)" "(status, c1, p1)"] assms
  by (auto simp: gkeycomp_compress_def comp_status_ok_def)


theorem compress_flush_idempotent_witness:
  "gkeycomp_compress ((gkeycomp_make 9)\<lparr>c_state := GKeyCompState_Flush\<rparr>)
     \<lparr>in_buffer = [1, 2, 3], in_size = 3, out_buffer = Some [], out_size = 0, prog_cb = None\<rparr> =
   Some (GKeyStatus_Finished, (gkeycomp_make 9)\<lparr>c_state := GKeyCompState_Flush\<rparr>,
     \<lparr>in_buffer = [1, 2, 3], in_size = 3, out_buffer = Some [], out_size = 0, prog_cb = None\<rparr>)"
proof -
  have first: "gkeycomp_compress (gkeycomp_make 9) no_input =
      Some (GKeyStatus_Finished, (gkeycomp_make 9)\<lparr>c_state := GKeyCompState_Flush\<rparr>, no_input)"
    by (simp add: gkeycomp_compress_def comp_loop.simps comp_switch_def comp_Progress_def
        comp_FindSequence_def comp_Found_def comp_Flush_def write_bits_flush_idle
        gkeycomp_make_def no_input_def)
  show ?thesis
    by (rule compress_flush_idempotent[OF first])
qed

theorem compress_status_range_witness:
  "GKeyStatus_Finished \<noteq> GKeyStatus_TruncatedInput \<and> GKeyStatus_Finished \<noteq> GKeyStatus_BadInput \<and>
   gkeycomp_compress (gkeycomp_make 9) no_input =
      Some (GKeyStatus_Finished, (gkeycomp_make 9)\<lparr>c_state := GKeyCompState_Flush\<rparr>, no_input)"
proof -
  have first: "gkeycomp_compress (gkeycomp_make 9) no_input =
      Some (GKeyStatus_Finished, (gkeycomp_make 9)\<lparr>c_state := GKeyCompState_Flush\<rparr>, no_input)"
    by (simp add: gkeycomp_compress_def comp_loop.simps comp_switch_def comp_Progress_def
        comp_FindSequence_def comp_Found_def comp_Flush_def write_bits_flush_idle
        gkeycomp_make_def no_input_def)
  show ?thesis
    using compress_status_range[OF first] first by simp
qed

section \<open>The ring as a sequence of bytes past the write position\<close>

definition ring_inv :: "RingBuffer \<Rightarrow> bool" where
  "ring_inv ring = (length (buffer ring) = ring_size ring \<and> write_pos ring < ring_size ring)"

definition ring_zero :: "RingBuffer \<Rightarrow> bool" where
  "ring_zero ring =
     (filled ring \<or> (\<forall>i. write_pos ring \<le> i \<and> i < ring_size ring \<longrightarrow> buffer ring ! i = 0))"

definition ring_at :: "RingBuffer \<Rightarrow> nat \<Rightarrow> byte" where
  "ring_at ring d = buffer ring ! ((write_pos ring + d) mod ring_size ring)"

lemma ring_size_pow: "ring_size ring = 2 ^ size_log_2 ring"
  by (simp add: ring_size_def)

lemma ring_size_pos: "0 < ring_size ring"
  by (simp add: ring_size_def)

lemma ring_mask_mod: "(x::nat) AND (ring_size ring - 1) = x mod ring_size ring"
proof -
  have "x AND (2 ^ size_log_2 ring - 1) = take_bit (size_log_2 ring) x"
    by (simp add: take_bit_eq_mask mask_eq_exp_minus_1)
  then show ?thesis
    by (simp add: ring_size_def take_bit_eq_mod)
qed

lemma RingBuffer_read_char_at: "RingBuffer_read_char ring d = ring_at ring d"
  by (simp only: RingBuffer_read_char_def ring_at_def ring_mask_mod)

lemma memchr_None: "(memchr xs c = None) = (\<forall>i<length xs. xs ! i \<noteq> c)"
proof (induction xs)
  case Nil
  show ?case by simp
next
  case (Cons x xs)
  show ?case
    using Cons.IH by (auto simp: nth_Cons split: nat.splits)
qed

lemma memchr_Some:
  "(memchr xs c = Some m) = (m < length xs \<and> xs ! m = c \<and> (\<forall>i<m. xs ! i \<noteq> c))"
proof (induction xs arbitrary: m)
  case Nil
  show ?case by simp
next
  case (Cons x xs)
  show ?case
  proof (cases "x = c")
    case True
    then show ?thesis by (cases m) auto
  next
    case False
    show ?thesis
    proof (cases m)
      case 0
      then show ?thesis using False by auto
    next
      case (Suc k)
      have "(\<forall>i<Suc k. (x # xs) ! i \<noteq> c) = (\<forall>i<k. xs ! i \<noteq> c)"
        using False by (auto simp: nth_Cons split: nat.splits)
      then show ?thesis
        using False Suc Cons.IH[of k] by auto
    qed
  qed
qed

lemma mem_nth: "start + n \<le> length buf \<Longrightarrow> i < n \<Longrightarrow> mem buf start n ! i = buf ! (start + i)"
  by (simp add: mem_def)

lemma mem_length: "start + n \<le> length buf \<Longrightarrow> length (mem buf start n) = n"
  by (simp add: mem_def)


lemma memchr_append:
  "memchr (xs @ ys) c =
     (case memchr xs c of Some m \<Rightarrow> Some m
      | None \<Rightarrow> map_option (\<lambda>j. j + length xs) (memchr ys c))"
proof (induction xs)
  case Nil
  show ?case by (cases "memchr ys c") auto
next
  case (Cons x xs)
  then show ?case
    by (auto simp: option.map_comp comp_def split: option.splits)
qed

lemma memchr_replicate_zero:
  "memchr (replicate k 0) c = (if c = 0 \<and> 0 < k then Some 0 else None)"
  by (induction k) auto

lemma mod_once: "(s::nat) \<le> x \<Longrightarrow> x < 2 * s \<Longrightarrow> x mod s = x - s"
  by (simp add: le_mod_geq)

text \<open>The window of \<open>n\<close> bytes that starts \<open>offset\<close> bytes past the write position.\<close>

definition ring_window :: "RingBuffer \<Rightarrow> nat \<Rightarrow> nat \<Rightarrow> byte list" where
  "ring_window ring offset n = map (\<lambda>i. ring_at ring (offset + i)) [0..<n]"

lemma ring_window_length [simp]: "length (ring_window ring offset n) = n"
  by (simp add: ring_window_def)

lemma ring_window_nth: "i < n \<Longrightarrow> ring_window ring offset n ! i = ring_at ring (offset + i)"
  by (simp add: ring_window_def)

text \<open>A window that does not reach the physical end of the storage is contiguous.\<close>

lemma ring_window_straight:
  assumes "ring_inv ring" "write_pos ring + offset + n \<le> ring_size ring"
  shows "ring_window ring offset n = mem (buffer ring) (write_pos ring + offset) n"
proof (rule nth_equalityI)
  show "length (ring_window ring offset n) = length (mem (buffer ring) (write_pos ring + offset) n)"
    using assms by (simp add: mem_length ring_inv_def)
next
  fix i assume "i < length (ring_window ring offset n)"
  then have i: "i < n" by simp
  then have "(write_pos ring + (offset + i)) mod ring_size ring = write_pos ring + offset + i"
    using assms(2) by simp
  then show "ring_window ring offset n ! i = mem (buffer ring) (write_pos ring + offset) n ! i"
    using assms i by (simp add: ring_window_nth ring_at_def mem_nth ring_inv_def add.assoc)
qed

text \<open>A window that starts after the wrap is contiguous too.\<close>

lemma ring_window_wrapped:
  assumes "ring_inv ring" "ring_size ring \<le> write_pos ring + offset" "offset + n \<le> ring_size ring"
  shows "ring_window ring offset n =
           mem (buffer ring) (write_pos ring + offset - ring_size ring) n"
proof (rule nth_equalityI)
  have "write_pos ring + offset - ring_size ring + n \<le> length (buffer ring)"
    using assms unfolding ring_inv_def by linarith
  then show "length (ring_window ring offset n) =
        length (mem (buffer ring) (write_pos ring + offset - ring_size ring) n)"
    by (simp add: mem_length)
next
  fix i assume "i < length (ring_window ring offset n)"
  then have i: "i < n" by simp
  have "write_pos ring + (offset + i) < 2 * ring_size ring"
    using assms i unfolding ring_inv_def by linarith
  then have "(write_pos ring + (offset + i)) mod ring_size ring =
      write_pos ring + offset - ring_size ring + i"
    using assms(2) by (simp add: mod_once)
  moreover have "write_pos ring + offset - ring_size ring + n \<le> length (buffer ring)"
    using assms unfolding ring_inv_def by linarith
  ultimately show "ring_window ring offset n ! i =
      mem (buffer ring) (write_pos ring + offset - ring_size ring) n ! i"
    using i by (simp add: ring_window_nth ring_at_def mem_nth)
qed

lemma ring_window_split:
  "ring_window ring offset (a + b) = ring_window ring offset a @ ring_window ring (offset + a) b"
  by (rule nth_equalityI) (auto simp: ring_window_nth nth_append add.assoc)

text \<open>In a ring that has not wrapped yet, everything up to the physical end is zero.\<close>

lemma ring_window_virgin:
  assumes "ring_inv ring" "ring_zero ring" "\<not> filled ring"
    "write_pos ring + offset + n \<le> ring_size ring"
  shows "ring_window ring offset n = replicate n 0"
proof (rule nth_equalityI)
  show "length (ring_window ring offset n) = length (replicate n (0::byte))" by simp
next
  fix i assume "i < length (ring_window ring offset n)"
  then have i: "i < n" by simp
  then have "(write_pos ring + (offset + i)) mod ring_size ring = write_pos ring + offset + i"
    using assms(4) by simp
  moreover have "buffer ring ! (write_pos ring + offset + i) = 0"
    using assms i by (simp add: ring_zero_def)
  ultimately show "ring_window ring offset n ! i = replicate n 0 ! i"
    using i by (simp add: ring_window_nth ring_at_def)
qed

lemma RingBuffer_find_char_scan:
  assumes inv: "ring_inv ring" and z: "ring_zero ring"
    and rng: "offset + n \<le> ring_size ring" and n: "0 < n"
  shows "RingBuffer_find_char ring offset n c =
           (case memchr (ring_window ring offset n) c of
              Some m \<Rightarrow> m + offset | None \<Rightarrow> SIZE_MAX)"
proof -
  define S where "S = ring_size ring"
  define wp where "wp = write_pos ring"
  define abs_read where "abs_read = (write_pos ring + offset) AND (ring_size ring - 1)"
  define search where "search = (if write_pos ring > abs_read then True else filled ring)"
  define to_search where "to_search = (if write_pos ring > abs_read then write_pos ring - abs_read
                       else ring_size ring - abs_read)"
  define to_search1 where "to_search1 = (if search then min to_search n else to_search)"
  define match where "match = (if search then memchr (mem (buffer ring) abs_read to_search1) c
                   else if c = 0 then Some 0 else None)"
  define second where
    "second = memchr (mem (buffer ring) 0 (min (write_pos ring) (n - to_search1))) c"
  have fc: "RingBuffer_find_char ring offset n c =
     (if match = None \<and> n > to_search1 then
        (case second of Some m \<Rightarrow> m + (offset + to_search1) | None \<Rightarrow> SIZE_MAX)
      else (case match of Some m \<Rightarrow> m + offset | None \<Rightarrow> SIZE_MAX))"
    unfolding RingBuffer_find_char_def Let_def abs_read_def search_def to_search_def
      to_search1_def match_def second_def
    by (rule refl)
  have ar: "abs_read = (wp + offset) mod S"
    unfolding abs_read_def wp_def S_def by (rule ring_mask_mod)
  have wpS: "wp < S" and len: "length (buffer ring) = S"
    using inv by (simp_all add: ring_inv_def wp_def S_def)
  have rng': "offset + n \<le> S" using rng by (simp add: S_def)
  show ?thesis
  proof (cases "S \<le> wp + offset")
    case True
    have ar': "abs_read = wp + offset - S"
      using True wpS rng' n unfolding ar by (simp add: mod_once)
    have lt: "abs_read < wp" using ar' True rng' n by linarith
    have s: "search" using lt by (simp add: search_def wp_def)
    have ts: "to_search1 = n"
      using lt s ar' True rng' by (simp add: to_search1_def to_search_def wp_def[symmetric])
    have "ring_window ring offset n = mem (buffer ring) abs_read n"
      using ring_window_wrapped[OF inv _ rng] True by (simp add: ar' wp_def S_def)
    then have m: "match = memchr (ring_window ring offset n) c"
      using s ts by (simp add: match_def)
    show ?thesis
      unfolding fc using ts by (simp add: m)
  next
    case False
    then have ar': "abs_read = wp + offset"
      unfolding ar by simp
    define t where "t = S - abs_read"
    have tpos: "0 < t" using False ar' by (simp add: t_def)
    have s: "search = filled ring"
      using ar' by (simp add: search_def wp_def[symmetric])
    have tse: "to_search = t"
      using ar' by (simp add: to_search_def wp_def[symmetric] t_def S_def)
    define t1 where "t1 = min t n"
    have t1pos: "0 < t1" using tpos n by (simp add: t1_def)
    have t1n: "t1 \<le> n" by (simp add: t1_def)
    have straight1: "write_pos ring + offset + t1 \<le> ring_size ring"
    proof -
      have "t1 \<le> t" by (simp add: t1_def)
      then have "wp + offset + t1 \<le> S" using False ar' unfolding t_def by linarith
      then show ?thesis by (simp add: wp_def S_def)
    qed
    have split: "ring_window ring offset n =
        ring_window ring offset t1 @ ring_window ring (offset + t1) (n - t1)"
      using ring_window_split[of ring offset t1 "n - t1"] t1n by simp
    have first: "ring_window ring offset t1 = mem (buffer ring) abs_read t1"
    proof -
      have "write_pos ring + offset + t1 \<le> ring_size ring"
        using straight1 .
      from ring_window_straight[OF inv this] show ?thesis
        by (simp add: ar' wp_def)
    qed
    have firstlen: "length (ring_window ring offset t1) = t1" by simp
    have second: "ring_window ring (offset + t1) (n - t1) =
        mem (buffer ring) 0 (min (write_pos ring) (n - t))" if nt: "t < n"
    proof -
      have t1t: "t1 = t" using nt by (simp add: t1_def)
      have a: "ring_size ring \<le> write_pos ring + (offset + t1)"
        using ar' False by (simp add: t1t t_def wp_def S_def)
      have b: "offset + t1 + (n - t1) \<le> ring_size ring"
        using t1n rng by simp
      have c: "write_pos ring + (offset + t1) - ring_size ring = 0"
        using ar' False by (simp add: t1t t_def wp_def S_def)
      have d: "min (write_pos ring) (n - t) = n - t"
        using rng' ar' False by (simp add: t_def wp_def[symmetric])
      from ring_window_wrapped[OF inv a b, unfolded c] show ?thesis
        by (simp add: d t1t)
    qed
    have nosecond: "ring_window ring (offset + t1) (n - t1) = []" if "\<not> t < n"
      using that by (simp add: t1_def ring_window_def)
    show ?thesis
    proof (cases "filled ring")
      case True
      have ts1: "to_search1 = t1"
        using s True tse by (simp add: to_search1_def t1_def)
      have m: "match = memchr (ring_window ring offset t1) c"
        using s True ts1 first by (simp add: match_def)
      show ?thesis
      proof (cases "t < n")
        case nt: True
        have t1t: "t1 = t" using nt by (simp add: t1_def)
        have ts1': "to_search1 = t1" using ts1 t1t by simp
        have lt: "t1 < n" using nt t1t by simp
        have sec: "memchr (ring_window ring (offset + t1) (n - t1)) c = second"
          using second[OF nt] by (simp add: second_def ts1 t1t)
        show ?thesis
          unfolding fc split memchr_append m[symmetric] sec ts1' firstlen
          using lt by (cases match; cases second) simp_all
      next
        case nt: False
        have "\<not> n > to_search1" using nt by (simp add: ts1 t1_def)
        then show ?thesis
          unfolding fc split memchr_append nosecond[OF nt] m[symmetric]
          by (cases match) simp_all
      qed
    next
      case nf: False
      have ts1: "to_search1 = t"
        using s nf tse by (simp add: to_search1_def)
      have "write_pos ring + offset + t1 \<le> ring_size ring"
        using straight1 .
      from ring_window_virgin[OF inv z nf this]
      have fz: "memchr (ring_window ring offset t1) c = (if c = 0 then Some 0 else None)"
        using t1pos by (simp add: memchr_replicate_zero)
      have m: "match = memchr (ring_window ring offset t1) c"
        using s nf fz by (simp add: match_def)
      show ?thesis
      proof (cases "t < n")
        case nt: True
        have t1t: "t1 = t" using nt by (simp add: t1_def)
        have ts1': "to_search1 = t1" using ts1 t1t by simp
        have lt: "t1 < n" using nt t1t by simp
        have sec: "memchr (ring_window ring (offset + t1) (n - t1)) c = second"
          using second[OF nt] by (simp add: second_def ts1 t1t)
        show ?thesis
          unfolding fc split memchr_append m[symmetric] sec ts1' firstlen
          using lt by (cases match; cases second) simp_all
      next
        case nt: False
        have "\<not> n > to_search1" using nt by (simp add: ts1)
        then show ?thesis
          unfolding fc split memchr_append nosecond[OF nt] m[symmetric]
          by (cases match) simp_all
      qed
    qed
  qed
qed

section \<open>Searching the ring for a byte\<close>

text \<open>
  Claim C6.  \<open>RingBuffer_find_char ring offset n c\<close> is documented to return the offset
  of the first occurrence of \<open>c\<close> among the \<open>n\<close> bytes at \<open>offset\<close> past the write
  position, and \<open>SIZE_MAX\<close> when there is none.  For \<open>0 < n\<close> this is
  \<open>RingBuffer_find_char_scan\<close>.  For \<open>n = 0\<close> the searched path clamps its length to
  \<open>n\<close>, so \<open>memchr\<close> sees no byte, but the path taken for a ring that has not wrapped
  yet answers from \<open>c\<close> alone: on a fresh ring of two bytes, searching the empty range at
  offset 0 for the byte 0 returns 0, a position outside the empty range, where the byte-wise
  scan of that range finds nothing and \<open>SIZE_MAX\<close> is due.
\<close>

theorem find_char_empty_range:
  "RingBuffer_find_char (RingBuffer_make 1) 0 0 0 = 0 \<and>
   ring_window (RingBuffer_make 1) 0 0 = [] \<and>
   memchr (ring_window (RingBuffer_make 1) 0 0) 0 = None \<and>
   filled (RingBuffer_make 1) = False \<and>
   buffer (RingBuffer_make 1) = replicate 2 0 \<and>
   (0::nat) \<noteq> SIZE_MAX"
  by (simp add: RingBuffer_find_char_def RingBuffer_make_def RingBuffer_init_def
      RingBuffer_reset_def ring_size_def ring_window_def SIZE_MAX_def Let_def)

section \<open>Writing into the ring\<close>

text \<open>
  The content of the ring read from a position \<open>wpos\<close> round to that position again;
  at the write position it is the history, oldest byte first.
\<close>

definition view_at :: "byte list \<Rightarrow> nat \<Rightarrow> nat \<Rightarrow> byte list" where
  "view_at buf S wpos = map (\<lambda>d. buf ! ((wpos + d) mod S)) [0..<S]"

definition ring_view :: "RingBuffer \<Rightarrow> byte list" where
  "ring_view ring = view_at (buffer ring) (ring_size ring) (write_pos ring)"

lemma view_at_length [simp]: "length (view_at buf S wpos) = S"
  by (simp add: view_at_def)

lemma ring_view_length [simp]: "length (ring_view ring) = ring_size ring"
  by (simp add: ring_view_def)

lemma ring_view_nth: "d < ring_size ring \<Longrightarrow> ring_view ring ! d = ring_at ring d"
  by (simp add: ring_view_def view_at_def ring_at_def)

lemma ring_window_view:
  "offset + n \<le> ring_size ring \<Longrightarrow> ring_window ring offset n = take n (drop offset (ring_view ring))"
  by (rule nth_equalityI) (simp_all add: ring_window_nth ring_view_nth)

lemma memmove_length:
  "dst + length bs \<le> length buf \<Longrightarrow> length (memmove buf dst bs) = length buf"
  by (simp add: memmove_def)

lemma memmove_nth:
  assumes "dst + length bs \<le> length buf" "p < length buf"
  shows "memmove buf dst bs ! p =
           (if dst \<le> p \<and> p < dst + length bs then bs ! (p - dst) else buf ! p)"
proof -
  consider "p < dst" | "dst \<le> p" "p < dst + length bs" | "dst + length bs \<le> p"
    by linarith
  then show ?thesis
  proof cases
    case 1
    then show ?thesis using assms by (simp add: memmove_def nth_append)
  next
    case 2
    then have "p - dst < length bs" by linarith
    then show ?thesis using 2 assms by (simp add: memmove_def nth_append)
  next
    case 3
    have "\<not> p - dst < length bs" "\<not> p < dst" using 3 by linarith+
    then have "memmove buf dst bs ! p = drop (dst + length bs) buf ! (p - dst - length bs)"
      using assms by (simp add: memmove_def nth_append)
    also have "\<dots> = buf ! p"
      using 3 assms by simp
    finally show ?thesis using 3 by simp
  qed
qed

lemma memmove_view:
  assumes len: "length buf = S" and w: "wpos < S" and c: "c \<le> S - wpos" and bs: "length bs = c"
  shows "view_at (memmove buf wpos bs) S ((wpos + c) mod S) = drop c (view_at buf S wpos @ bs)"
proof (rule nth_equalityI)
  show "length (view_at (memmove buf wpos bs) S ((wpos + c) mod S)) =
        length (drop c (view_at buf S wpos @ bs))"
    using bs by simp
next
  fix d assume "d < length (view_at (memmove buf wpos bs) S ((wpos + c) mod S))"
  then have d: "d < S" by simp
  define p where "p = (wpos + c + d) mod S"
  have pS: "p < S" using w by (simp add: p_def)
  have fit: "wpos + length bs \<le> length buf" using len w c bs by linarith
  have lhs: "view_at (memmove buf wpos bs) S ((wpos + c) mod S) ! d = memmove buf wpos bs ! p"
    using d by (simp add: view_at_def p_def mod_add_left_eq)
  have mm: "memmove buf wpos bs ! p =
      (if wpos \<le> p \<and> p < wpos + c then bs ! (p - wpos) else buf ! p)"
    using memmove_nth[OF fit, of p] pS len bs by simp
  have "drop c (view_at buf S wpos @ bs) ! d = (view_at buf S wpos @ bs) ! (c + d)"
    by (rule nth_drop) (use c in simp)
  also have "\<dots> = (if c + d < S then view_at buf S wpos ! (c + d) else bs ! (c + d - S))"
    by (simp add: nth_append)
  also have "\<dots> = (if c + d < S then buf ! p else bs ! (c + d - S))"
    by (simp add: view_at_def p_def add.assoc)
  finally have rhs: "drop c (view_at buf S wpos @ bs) ! d =
      (if c + d < S then buf ! p else bs ! (c + d - S))" .
  show "view_at (memmove buf wpos bs) S ((wpos + c) mod S) ! d =
        drop c (view_at buf S wpos @ bs) ! d"
  proof (cases "c + d < S")
    case short: True
    have "\<not> (wpos \<le> p \<and> p < wpos + c)"
    proof (cases "wpos + c + d < S")
      case True
      then show ?thesis by (simp add: p_def)
    next
      case False
      then have "p = wpos + c + d - S"
        using w short unfolding p_def by (simp add: mod_once)
      then show ?thesis using short False by linarith
    qed
    then show ?thesis unfolding lhs mm rhs using short by auto
  next
    case False
    then have "S \<le> wpos + c + d" by linarith
    moreover have "wpos + c + d < 2 * S" using w c d by linarith
    ultimately have pe: "p = wpos + c + d - S"
      unfolding p_def by (simp add: mod_once)
    then have "wpos \<le> p \<and> p < wpos + c" "p - wpos = c + d - S"
      using False d by linarith+
    then show ?thesis unfolding lhs mm rhs using False by simp
  qed
qed


text \<open>
  What \<open>RingBuffer_write\<close> needs of its source: the bytes are there, and a source
  inside the ring is not overwritten before it is read.
\<close>

definition src_ok :: "RingBuffer \<Rightarrow> src_ptr \<Rightarrow> nat \<Rightarrow> nat \<Rightarrow> bool" where
  "src_ok ring s n wpos =
     (case s of
        Caller bs \<Rightarrow> n \<le> length bs
      | InRing j \<Rightarrow> j + n \<le> ring_size ring \<and> (wpos + n \<le> ring_size ring \<or> j + n \<le> wpos))"

lemma RingBuffer_write_loop_stop:
  "RingBuffer_write_loop (ring, s, 0, wpos) = ring\<lparr>write_pos := wpos\<rparr>"
  by (subst RingBuffer_write_loop.simps) simp

lemma RingBuffer_write_loop_step:
  "nleft \<noteq> 0 \<Longrightarrow>
   RingBuffer_write_loop (ring, s, nleft, wpos) =
     RingBuffer_write_loop (RingBuffer_write_body (ring, s, nleft, wpos))"
  by (subst RingBuffer_write_loop.simps) simp

lemma src_bytes_length:
  "length (buffer ring) = ring_size ring \<Longrightarrow> src_ok ring s n wpos \<Longrightarrow> c \<le> n \<Longrightarrow>
   length (src_bytes ring s c) = c"
  by (cases s) (auto simp: src_ok_def src_bytes_def mem_def)

lemma src_bytes_split:
  "c \<le> n \<Longrightarrow> src_bytes ring s n = src_bytes ring s c @ src_bytes ring (src_add s c) (n - c)"
proof (cases s)
  case (Caller bs)
  assume "c \<le> n"
  then have "take n bs = take c bs @ take (n - c) (drop c bs)"
    using take_add[of c "n - c" bs] by simp
  then show ?thesis using Caller by (simp add: src_bytes_def src_add_def)
next
  case (InRing j)
  assume "c \<le> n"
  then have "take n (drop j (buffer ring)) =
      take c (drop j (buffer ring)) @ take (n - c) (drop c (drop j (buffer ring)))"
    using take_add[of c "n - c" "drop j (buffer ring)"] by simp
  then show ?thesis using InRing by (simp add: src_bytes_def src_add_def mem_def add.commute)
qed

lemma mem_memmove_below:
  assumes "dst + length bs \<le> length buf" "j + n \<le> dst"
  shows "mem (memmove buf dst bs) j n = mem buf j n"
proof (rule nth_equalityI)
  show "length (mem (memmove buf dst bs) j n) = length (mem buf j n)"
    using assms by (simp add: mem_def memmove_length)
next
  fix i assume "i < length (mem (memmove buf dst bs) j n)"
  then have i: "i < n" by (simp add: mem_def)
  have a: "j + n \<le> length (memmove buf dst bs)" "j + n \<le> length buf"
    using assms by (simp_all add: memmove_length)
  have "memmove buf dst bs ! (j + i) = buf ! (j + i)"
    using memmove_nth[OF assms(1), of "j + i"] assms i by simp
  then show "mem (memmove buf dst bs) j n ! i = mem buf j n ! i"
    using a i by (simp add: mem_nth)
qed

lemma RingBuffer_write_loop_view:
  assumes "length (buffer ring) = ring_size ring" "wpos < ring_size ring"
    "src_ok ring s nleft wpos"
  shows "length (buffer (RingBuffer_write_loop (ring, s, nleft, wpos))) = ring_size ring \<and>
     size_log_2 (RingBuffer_write_loop (ring, s, nleft, wpos)) = size_log_2 ring \<and>
     write_pos (RingBuffer_write_loop (ring, s, nleft, wpos)) = (wpos + nleft) mod ring_size ring \<and>
     filled (RingBuffer_write_loop (ring, s, nleft, wpos)) =
       (filled ring \<or> ring_size ring \<le> wpos + nleft) \<and>
     ring_view (RingBuffer_write_loop (ring, s, nleft, wpos)) =
       drop nleft (view_at (buffer ring) (ring_size ring) wpos @ src_bytes ring s nleft)"
  using assms
proof (induction nleft arbitrary: ring s wpos rule: less_induct)
  case (less nleft)
  define S where "S = ring_size ring"
  have len: "length (buffer ring) = S" and w: "wpos < S"
    using less.prems by (simp_all add: S_def)
  show ?case
  proof (cases "nleft = 0")
    case True
    have "src_bytes ring s 0 = []"
      by (cases s) (simp_all add: src_bytes_def mem_def)
    then show ?thesis
      using True less.prems
      by (simp add: RingBuffer_write_loop_stop ring_view_def ring_size_def)
  next
    case False
    define c where "c = (if S - wpos > nleft then nleft else S - wpos)"
    define bs1 where "bs1 = src_bytes ring s c"
    define ring1 where "ring1 = ring\<lparr>buffer := memmove (buffer ring) wpos bs1\<rparr>"
    define ring2 where "ring2 = (if S \<le> wpos + c then ring1\<lparr>filled := True\<rparr> else ring1)"
    define wpos1 where "wpos1 = (if S \<le> wpos + c then 0 else wpos + c)"
    define s1 where "s1 = src_add s c"
    define n1 where "n1 = nleft - c"
    have body: "RingBuffer_write_body (ring, s, nleft, wpos) = (ring2, s1, n1, wpos1)"
      unfolding RingBuffer_write_body_def Let_def c_def bs1_def ring1_def ring2_def wpos1_def
        s1_def n1_def S_def
      by simp
    have cpos: "0 < c" and cn: "c \<le> nleft" and cS: "c \<le> S - wpos"
      using False w by (simp_all add: c_def)
    have lbs1: "length bs1 = c"
      unfolding bs1_def using src_bytes_length[OF less.prems(1) less.prems(3) cn] .
    have size2: "size_log_2 ring2 = size_log_2 ring" "ring_size ring2 = S"
      by (simp_all add: ring2_def ring1_def ring_size_def S_def)
    have buf2: "buffer ring2 = memmove (buffer ring) wpos bs1"
      by (simp add: ring2_def ring1_def)
    have fit: "wpos + length bs1 \<le> length (buffer ring)"
      using len lbs1 cS w by linarith
    have len2: "length (buffer ring2) = ring_size ring2"
      using memmove_length[OF fit] len by (simp add: buf2 size2)
    have w1: "wpos1 = (wpos + c) mod S"
    proof (cases "S \<le> wpos + c")
      case True
      then have "wpos + c = S" using cS w by linarith
      then show ?thesis using True by (simp add: wpos1_def)
    next
      case False
      then show ?thesis by (simp add: wpos1_def)
    qed
    have w1S: "wpos1 < ring_size ring2"
      using w by (simp add: w1 size2)
    have fil2: "filled ring2 = (filled ring \<or> S \<le> wpos + c)"
      by (simp add: ring2_def ring1_def)
    have n1lt: "n1 < nleft" using cpos cn by (simp add: n1_def)
    have tail: "n1 = 0 \<or> (c = S - wpos \<and> wpos1 = 0)"
      using cS by (auto simp: n1_def c_def wpos1_def split: if_splits)
    have ok2: "src_ok ring2 s1 n1 wpos1"
    proof (cases s)
      case (Caller bs)
      then show ?thesis
        using less.prems(3) by (simp add: src_ok_def s1_def src_add_def n1_def)
    next
      case (InRing j)
      then have j: "j + nleft \<le> S" "wpos + nleft \<le> S \<or> j + nleft \<le> wpos"
        using less.prems(3) by (simp_all add: src_ok_def S_def)
      have "j + c + n1 \<le> S" using j cn by (simp add: n1_def)
      moreover have "wpos1 + n1 \<le> S"
        using tail j w unfolding n1_def by (auto simp: wpos1_def split: if_splits)
      ultimately show ?thesis
        using InRing by (simp add: src_ok_def s1_def src_add_def size2)
    qed
    have src2: "src_bytes ring2 s1 n1 = src_bytes ring s1 n1"
    proof (cases s)
      case (Caller bs)
      then show ?thesis by (simp add: src_bytes_def s1_def src_add_def)
    next
      case (InRing j)
      show ?thesis
      proof (cases "n1 = 0")
        case True
        then show ?thesis using InRing by (simp add: src_bytes_def s1_def src_add_def mem_def)
      next
        case n1pos: False
        then have "c < nleft" by (simp add: n1_def)
        then have "S < wpos + nleft" using cS by (auto simp: c_def split: if_splits)
        then have "j + nleft \<le> wpos"
          using less.prems(3) InRing by (simp add: src_ok_def S_def)
        then have "j + c + n1 \<le> wpos" using cn by (simp add: n1_def)
        from mem_memmove_below[OF fit this] show ?thesis
          using InRing by (simp add: src_bytes_def s1_def src_add_def buf2)
      qed
    qed
    have all: "src_bytes ring s nleft = bs1 @ src_bytes ring s1 n1"
      unfolding bs1_def s1_def n1_def by (rule src_bytes_split[OF cn])
    have view2: "view_at (buffer ring2) (ring_size ring2) wpos1 =
        drop c (view_at (buffer ring) S wpos @ bs1)"
      unfolding buf2 size2 w1 by (rule memmove_view[OF len w cS lbs1])
    have step: "RingBuffer_write_loop (ring, s, nleft, wpos) =
        RingBuffer_write_loop (ring2, s1, n1, wpos1)"
      using RingBuffer_write_loop_step[OF False] body by simp
    note ih = less.IH[OF n1lt len2 w1S ok2]
    have a1: "length (buffer (RingBuffer_write_loop (ring, s, nleft, wpos))) = ring_size ring"
      using ih by (simp add: step size2 S_def)
    have a2: "size_log_2 (RingBuffer_write_loop (ring, s, nleft, wpos)) = size_log_2 ring"
      using ih by (simp add: step size2)
    have "(wpos1 + n1) mod S = (wpos + c + n1) mod S"
      unfolding w1 by (simp add: mod_add_left_eq)
    then have a3: "write_pos (RingBuffer_write_loop (ring, s, nleft, wpos)) =
        (wpos + nleft) mod ring_size ring"
      using ih cn by (simp add: step size2 S_def n1_def)
    have "(filled ring2 \<or> S \<le> wpos1 + n1) = (filled ring \<or> S \<le> wpos + nleft)"
      using tail cn cS w unfolding fil2 n1_def wpos1_def c_def
      by (auto split: if_splits)
    then have a4: "filled (RingBuffer_write_loop (ring, s, nleft, wpos)) =
        (filled ring \<or> ring_size ring \<le> wpos + nleft)"
      using ih by (simp add: step size2 S_def)
    have "drop n1 (drop c (view_at (buffer ring) S wpos @ bs1) @ src_bytes ring s1 n1) =
        drop n1 (drop c (view_at (buffer ring) S wpos @ bs1 @ src_bytes ring s1 n1))"
      using cS lbs1 by simp
    also have "\<dots> = drop (n1 + c) (view_at (buffer ring) S wpos @ bs1 @ src_bytes ring s1 n1)"
      by (simp only: drop_drop)
    also have "\<dots> = drop nleft (view_at (buffer ring) S wpos @ src_bytes ring s nleft)"
      using cn by (simp only: all n1_def le_add_diff_inverse2)
    finally have a5: "ring_view (RingBuffer_write_loop (ring, s, nleft, wpos)) =
        drop nleft (view_at (buffer ring) (ring_size ring) wpos @ src_bytes ring s nleft)"
      using ih by (simp add: step view2 src2 S_def)
    show ?thesis using a1 a2 a3 a4 a5 by simp
  qed
qed

text \<open>\<open>ring_appended ring0 ring bs\<close>: \<open>ring\<close> is \<open>ring0\<close> after the bytes \<open>bs\<close> were written.\<close>

definition ring_appended :: "RingBuffer \<Rightarrow> RingBuffer \<Rightarrow> byte list \<Rightarrow> bool" where
  "ring_appended ring0 ring bs =
     (ring_inv ring \<and> size_log_2 ring = size_log_2 ring0 \<and>
      write_pos ring = (write_pos ring0 + length bs) mod ring_size ring0 \<and>
      filled ring = (filled ring0 \<or> ring_size ring0 \<le> write_pos ring0 + length bs) \<and>
      ring_view ring = drop (length bs) (ring_view ring0 @ bs))"

lemma ring_appended_size: "ring_appended ring0 ring bs \<Longrightarrow> ring_size ring = ring_size ring0"
  by (simp add: ring_appended_def ring_size_def)

lemma ring_appended_refl: "ring_inv ring \<Longrightarrow> ring_appended ring ring []"
  by (simp add: ring_appended_def ring_inv_def)

lemma filled_after:
  assumes "(w::nat) < S"
  shows "(S \<le> w + a \<or> S \<le> (w + a) mod S + b) = (S \<le> w + a + b)"
proof (cases "S \<le> w + a")
  case True
  then show ?thesis by simp
next
  case False
  then show ?thesis by simp
qed

lemma ring_appended_trans:
  assumes 1: "ring_appended r0 r1 a" and 2: "ring_appended r1 r2 b" and inv: "ring_inv r0"
  shows "ring_appended r0 r2 (a @ b)"
proof -
  define S where "S = ring_size r0"
  have s1: "ring_size r1 = S" using 1 by (simp add: ring_appended_size S_def)
  have w0: "write_pos r0 < S" using inv by (simp add: ring_inv_def S_def)
  have a: "ring_inv r2" "size_log_2 r2 = size_log_2 r0"
    using 1 2 by (simp_all add: ring_appended_def)
  have "write_pos r2 = ((write_pos r0 + length a) mod S + length b) mod S"
    using 1 2 by (simp add: ring_appended_def s1 S_def[symmetric])
  then have b: "write_pos r2 = (write_pos r0 + length (a @ b)) mod S"
    by (simp add: mod_add_left_eq add.assoc)
  have "filled r2 = (filled r0 \<or> (S \<le> write_pos r0 + length a \<or>
      S \<le> (write_pos r0 + length a) mod S + length b))"
    using 1 2 by (simp add: ring_appended_def s1 S_def[symmetric])
  then have c: "filled r2 = (filled r0 \<or> S \<le> write_pos r0 + length (a @ b))"
    unfolding filled_after[OF w0] by (simp add: add.assoc)
  have "ring_view r2 = drop (length b) (drop (length a) (ring_view r0 @ a) @ b)"
    using 1 2 by (simp add: ring_appended_def)
  also have "drop (length a) (ring_view r0 @ a) @ b = drop (length a) (ring_view r0 @ a @ b)"
    by simp
  also have "drop (length b) (drop (length a) (ring_view r0 @ a @ b)) =
      drop (length (a @ b)) (ring_view r0 @ a @ b)"
    by (simp only: drop_drop length_append add.commute)
  finally have d: "ring_view r2 = drop (length (a @ b)) (ring_view r0 @ a @ b)" .
  show ?thesis
    unfolding ring_appended_def using a b c d by (simp add: S_def)
qed

lemma RingBuffer_write_appended:
  assumes inv: "ring_inv ring" and ok: "src_ok ring s n (write_pos ring)"
  shows "ring_appended ring (RingBuffer_write ring s n) (src_bytes ring s n)"
proof -
  have len: "length (buffer ring) = ring_size ring" and w: "write_pos ring < ring_size ring"
    using inv by (simp_all add: ring_inv_def)
  have l: "length (src_bytes ring s n) = n"
    using src_bytes_length[OF len ok] by simp
  note v = RingBuffer_write_loop_view[OF len w ok]
  have sz: "ring_size (RingBuffer_write ring s n) = ring_size ring"
    using v by (simp add: RingBuffer_write_def ring_size_def)
  have i: "ring_inv (RingBuffer_write ring s n)"
    unfolding ring_inv_def sz using v w by (simp add: RingBuffer_write_def)
  have v2: "size_log_2 (RingBuffer_write ring s n) = size_log_2 ring"
    and v3: "write_pos (RingBuffer_write ring s n) = (write_pos ring + n) mod ring_size ring"
    and v4: "filled (RingBuffer_write ring s n) =
       (filled ring \<or> ring_size ring \<le> write_pos ring + n)"
    and v5: "ring_view (RingBuffer_write ring s n) =
       drop n (ring_view ring @ src_bytes ring s n)"
    using v unfolding RingBuffer_write_def ring_view_def by blast+
  show ?thesis
    unfolding ring_appended_def l using i v2 v3 v4 v5 by blast
qed

lemma ring_zero_view:
  assumes "ring_inv ring"
  shows "ring_zero ring =
     (filled ring \<or> (\<forall>d. d < ring_size ring - write_pos ring \<longrightarrow> ring_view ring ! d = 0))"
proof -
  have w: "write_pos ring < ring_size ring" using assms by (simp add: ring_inv_def)
  have "(\<forall>i. write_pos ring \<le> i \<and> i < ring_size ring \<longrightarrow> buffer ring ! i = 0) =
      (\<forall>d. d < ring_size ring - write_pos ring \<longrightarrow> ring_view ring ! d = 0)"
  proof
    assume a: "\<forall>i. write_pos ring \<le> i \<and> i < ring_size ring \<longrightarrow> buffer ring ! i = 0"
    show "\<forall>d. d < ring_size ring - write_pos ring \<longrightarrow> ring_view ring ! d = 0"
    proof (intro allI impI)
      fix d assume d: "d < ring_size ring - write_pos ring"
      then have "(write_pos ring + d) mod ring_size ring = write_pos ring + d" by simp
      then show "ring_view ring ! d = 0"
        using a d by (simp add: ring_view_nth ring_at_def)
    qed
  next
    assume a: "\<forall>d. d < ring_size ring - write_pos ring \<longrightarrow> ring_view ring ! d = 0"
    show "\<forall>i. write_pos ring \<le> i \<and> i < ring_size ring \<longrightarrow> buffer ring ! i = 0"
    proof (intro allI impI)
      fix i assume i: "write_pos ring \<le> i \<and> i < ring_size ring"
      then have d: "i - write_pos ring < ring_size ring - write_pos ring" by linarith
      have "(write_pos ring + (i - write_pos ring)) mod ring_size ring = i" using i by simp
      then show "buffer ring ! i = 0"
        using a[rule_format, OF d] d by (simp add: ring_view_nth ring_at_def)
    qed
  qed
  then show ?thesis by (simp add: ring_zero_def)
qed

lemma ring_appended_zero:
  assumes inv: "ring_inv ring0" and z: "ring_zero ring0" and app: "ring_appended ring0 ring bs"
  shows "ring_zero ring"
proof (cases "filled ring")
  case True
  then show ?thesis by (simp add: ring_zero_def)
next
  case False
  define S where "S = ring_size ring0"
  have inv1: "ring_inv ring" using app by (simp add: ring_appended_def)
  have sz: "ring_size ring = S" using app by (simp add: ring_appended_size S_def)
  have nf: "\<not> filled ring0" "write_pos ring0 + length bs < S"
    using app False by (auto simp: ring_appended_def S_def)
  then have wp: "write_pos ring = write_pos ring0 + length bs"
    using app by (simp add: ring_appended_def S_def)
  have z0: "\<And>d. d < S - write_pos ring0 \<Longrightarrow> ring_view ring0 ! d = 0"
    using z nf unfolding ring_zero_view[OF inv] by (simp add: S_def)
  have "ring_view ring ! d = 0" if d: "d < ring_size ring - write_pos ring" for d
  proof -
    have d': "length bs + d < S - write_pos ring0" using d by (simp add: sz wp)
    have "ring_view ring = drop (length bs) (ring_view ring0 @ bs)"
      using app unfolding ring_appended_def by blast
    moreover have "drop (length bs) (ring_view ring0 @ bs) ! d =
        (ring_view ring0 @ bs) ! (length bs + d)"
      by (rule nth_drop) simp
    ultimately have "ring_view ring ! d = (ring_view ring0 @ bs) ! (length bs + d)"
      by (simp only:)
    also have "\<dots> = ring_view ring0 ! (length bs + d)"
    proof -
      have "length bs + d < length (ring_view ring0)" using d' by (simp add: S_def)
      then show ?thesis by (simp only: nth_append if_True)
    qed
    finally show ?thesis using z0[OF d'] by simp
  qed
  then show ?thesis
    unfolding ring_zero_view[OF inv1] by simp
qed

section \<open>Copying within the ring\<close>

text \<open>
  The chunk that \<open>RingBuffer_copy\<close> offers to its callback when \<open>tot\<close> bytes of the
  window have been copied is the next part of the window as it was when the copy began.
\<close>

lemma ring_window_after:
  assumes app: "ring_appended ring0 ring (take tot (ring_window ring0 offset n))"
    and rng: "offset + n \<le> ring_size ring0" and tot: "tot \<le> n" and m: "tot + m \<le> n"
  shows "ring_window ring offset m = take m (drop tot (ring_window ring0 offset n))"
proof -
  define S where "S = ring_size ring0"
  define V0 where "V0 = ring_view ring0"
  define W where "W = ring_window ring0 offset n"
  have lV: "length V0 = S" by (simp add: V0_def S_def)
  have W: "W = take n (drop offset V0)"
    unfolding W_def V0_def using rng by (rule ring_window_view)
  have lW: "length (take tot W) = tot" using tot by (simp add: W_def)
  have sz: "ring_size ring = S" using app by (simp add: ring_appended_size S_def)
  have "ring_view ring = drop (length (take tot W)) (V0 @ take tot W)"
    using app unfolding ring_appended_def W_def V0_def by blast
  then have v: "ring_view ring = drop tot V0 @ take tot W"
    unfolding lW using tot rng lV by (simp add: S_def)
  have "ring_window ring offset m = take m (drop offset (ring_view ring))"
    using rng m by (intro ring_window_view) (simp add: sz S_def)
  also have "\<dots> = take m (drop (offset + tot) V0)"
    unfolding v using rng m lV by (simp add: S_def add.commute)
  also have "\<dots> = take m (drop tot W)"
    unfolding W using m by (simp add: drop_take add.commute min_def)
  finally show ?thesis by (simp add: W_def)
qed

lemma RingBuffer_copy_loop_rule:
  fixes write_cb :: "('a \<Rightarrow> byte list \<Rightarrow> nat \<Rightarrow> nat \<times> 'a) option"
  assumes inv: "ring_inv ring0" and rng: "offset + n \<le> ring_size ring0"
    and cb: "\<And>t a src m c a1. Q t a \<Longrightarrow> 0 < m \<Longrightarrow> t + m \<le> n \<Longrightarrow>
               take m src = take m (drop t (ring_window ring0 offset n)) \<Longrightarrow>
               (case write_cb of Some f \<Rightarrow> f a src m | None \<Rightarrow> (m, a)) = (c, a1) \<Longrightarrow>
               c \<le> m \<and> Q (t + c) a1 \<and> (c < m \<longrightarrow> R a1)"
    and J: "tot \<le> n" "Q tot a" "ring_appended ring0 ring (take tot (ring_window ring0 offset n))"
           "copied < to_copy \<longrightarrow> R a"
  shows "\<exists>tot1 ring1 a1.
           RingBuffer_copy_loop write_cb offset n (ring, a, tot, copied, to_copy) = (tot1, ring1, a1) \<and>
           tot1 \<le> n \<and> Q tot1 a1 \<and> (tot1 < n \<longrightarrow> R a1) \<and>
           ring_appended ring0 ring1 (take tot1 (ring_window ring0 offset n))"
  using J
proof (induction "RingBuffer_copy_measure n (ring, a, tot, copied, to_copy)"
    arbitrary: ring a tot copied to_copy rule: less_induct)
  case less
  define W where "W = ring_window ring0 offset n"
  define S where "S = ring_size ring0"
  note app = less.prems(3)
  have sz: "ring_size ring = S" using app by (simp add: ring_appended_size S_def)
  have inv1: "ring_inv ring" using app by (simp add: ring_appended_def)
  show ?case
  proof (cases "tot < n \<and> to_copy \<le> copied")
    case False
    then have "RingBuffer_copy_loop write_cb offset n (ring, a, tot, copied, to_copy) = (tot, ring, a)"
      by (subst RingBuffer_copy_loop.simps) auto
    moreover have "tot < n \<longrightarrow> R a" using False less.prems(4) by auto
    ultimately show ?thesis using less.prems by simp
  next
    case True
    define wp where "wp = write_pos ring"
    define read_pos where "read_pos = (write_pos ring + offset) AND (ring_size ring - 1)"
    define m where "m = (if ring_size ring - read_pos > n - tot then n - tot
                         else ring_size ring - read_pos)"
    define r where "r = (case write_cb of
                         Some f \<Rightarrow> f a (drop read_pos (buffer ring)) m
                       | None \<Rightarrow> (m, a))"
    define ring1 where "ring1 = RingBuffer_write ring (InRing read_pos) (fst r)"
    have body: "RingBuffer_copy_body write_cb offset n (ring, a, tot, copied, to_copy) =
        (ring1, snd r, tot + fst r, fst r, m)"
      by (cases write_cb)
         (simp_all add: RingBuffer_copy_body_def Let_def read_pos_def m_def r_def ring1_def)
    have rp: "read_pos = (wp + offset) mod S"
      unfolding read_pos_def wp_def sz[symmetric] by (rule ring_mask_mod)
    have wpS: "wp < S" and len: "length (buffer ring) = S"
      using inv1 by (simp_all add: ring_inv_def wp_def sz)
    have rpS: "read_pos < S" using wpS by (simp add: rp)
    have mpos: "0 < m" and mS: "m \<le> S - read_pos"
      using True rpS by (simp_all add: m_def sz)
    have "m \<le> n - tot" by (simp add: m_def)
    then have mn: "tot + m \<le> n" using True by linarith
    have win: "ring_window ring offset m = take m (drop tot W)"
      unfolding W_def using app rng less.prems(1) mn by (rule ring_window_after)
    have contiguous: "ring_window ring offset m = mem (buffer ring) read_pos m"
    proof (cases "S \<le> wp + offset")
      case True
      have "wp + offset < 2 * S" using wpS rng mn by (simp add: S_def)
      then have e: "read_pos = wp + offset - S"
        using True unfolding rp by (simp add: mod_once)
      have fit: "offset + m \<le> ring_size ring" using rng mn by (simp add: sz S_def)
      have "ring_size ring \<le> write_pos ring + offset" using True by (simp add: wp_def sz)
      from ring_window_wrapped[OF inv1 this fit] show ?thesis
        by (simp add: e wp_def sz)
    next
      case False
      then have e: "read_pos = wp + offset" unfolding rp by simp
      then have "write_pos ring + offset + m \<le> ring_size ring"
        using mS rpS by (simp add: wp_def sz)
      from ring_window_straight[OF inv1 this] show ?thesis
        by (simp add: e wp_def)
    qed
    have offered: "take m (drop read_pos (buffer ring)) = take m (drop tot W)"
      using win contiguous by (simp add: mem_def)
    have req: "(case write_cb of Some f \<Rightarrow> f a (drop read_pos (buffer ring)) m | None \<Rightarrow> (m, a))
        = (fst r, snd r)"
      by (simp add: r_def)
    note c = cb[OF less.prems(2) mpos mn offered[unfolded W_def] req]
    have cm: "fst r \<le> m" using c by simp
    have ok: "src_ok ring (InRing read_pos) (fst r) (write_pos ring)"
    proof -
      have "read_pos + fst r \<le> S" using cm mS rpS by linarith
      moreover have "wp + fst r \<le> S \<or> read_pos + fst r \<le> wp"
      proof (cases "S \<le> wp + offset")
        case True
        have "wp + offset < 2 * S" using wpS rng mn by (simp add: S_def)
        then have "read_pos = wp + offset - S"
          using True unfolding rp by (simp add: mod_once)
        then have "read_pos + fst r \<le> wp"
          using cm mn rng True unfolding S_def by linarith
        then show ?thesis by simp
      next
        case False
        then have "read_pos = wp + offset" unfolding rp by simp
        then have "wp + fst r \<le> S" using cm mS rpS by linarith
        then show ?thesis by simp
      qed
      ultimately show ?thesis by (simp add: src_ok_def sz wp_def)
    qed
    have written: "src_bytes ring (InRing read_pos) (fst r) = take (fst r) (drop tot W)"
    proof -
      have "src_bytes ring (InRing read_pos) (fst r) =
          take (fst r) (take m (drop read_pos (buffer ring)))"
        using cm by (simp add: src_bytes_def mem_def min_def)
      then show ?thesis by (simp add: offered cm min_def)
    qed
    have "ring_appended ring ring1 (take (fst r) (drop tot W))"
      using RingBuffer_write_appended[OF inv1 ok] by (simp add: ring1_def written)
    from ring_appended_trans[OF app[folded W_def] this inv]
    have app1: "ring_appended ring0 ring1 (take (tot + fst r) W)"
      by (simp add: take_add)
    have dec: "RingBuffer_copy_measure n (ring1, snd r, tot + fst r, fst r, m)
        < RingBuffer_copy_measure n (ring, a, tot, copied, to_copy)"
      using RingBuffer_copy_body_decreases[of tot n to_copy copied write_cb offset ring a] True
      by (simp add: body)
    have j1: "tot + fst r \<le> n" using cm mn by linarith
    have j4: "fst r < m \<longrightarrow> R (snd r)" using c by simp
    have j2: "Q (tot + fst r) (snd r)" using c by simp
    have "RingBuffer_copy_loop write_cb offset n (ring, a, tot, copied, to_copy) =
        RingBuffer_copy_loop write_cb offset n (ring1, snd r, tot + fst r, fst r, m)"
      using True by (subst RingBuffer_copy_loop.simps) (simp add: body)
    then show ?thesis
      using less.hyps[OF dec j1 j2 app1[unfolded W_def] j4] by simp
  qed
qed

section \<open>Copying from the history into the output\<close>

lemma decomp_ring_writer_Some:
  assumes "out_buffer params = Some w"
  shows "decomp_ring_writer (decomp, params) src m =
     (min (out_size params) m,
      (decomp\<lparr>d_out_total := d_out_total decomp + min (out_size params) m\<rparr>,
       params\<lparr>out_buffer := Some (w @ take (min (out_size params) m) src),
              out_size := out_size params - min (out_size params) m\<rparr>))"
  using assms by (simp add: decomp_ring_writer_def Let_def min_def)

lemma decomp_copy_window:
  assumes inv: "ring_inv ring" and rng: "offset + n \<le> ring_size ring"
    and out: "out_buffer params = Some w"
  shows "\<exists>ring1.
     RingBuffer_copy ring (Some decomp_ring_writer) (decomp, params) offset n =
       (min n (out_size params), ring1,
        (decomp\<lparr>d_out_total := d_out_total decomp + min n (out_size params)\<rparr>,
         params\<lparr>out_buffer := Some (w @ take (min n (out_size params)) (ring_window ring offset n)),
                out_size := out_size params - min n (out_size params)\<rparr>)) \<and>
     ring_appended ring ring1 (take (min n (out_size params)) (ring_window ring offset n))"
proof -
  define W where "W = ring_window ring offset n"
  define cap where "cap = out_size params"
  define Q where "Q = (\<lambda>t (a :: GKeyDecomp \<times> GKeyParameters). t \<le> cap \<and>
      a = (decomp\<lparr>d_out_total := d_out_total decomp + t\<rparr>,
           params\<lparr>out_buffer := Some (w @ take t W), out_size := cap - t\<rparr>))"
  define R where "R = (\<lambda>a :: GKeyDecomp \<times> GKeyParameters. out_size (snd a) = 0)"
  have cb: "c \<le> m \<and> Q (t + c) a1 \<and> (c < m \<longrightarrow> R a1)"
    if q: "Q t a" and m: "0 < m" "t + m \<le> n"
      and src: "take m src = take m (drop t (ring_window ring offset n))"
      and r: "(case Some decomp_ring_writer of Some f \<Rightarrow> f a src m | None \<Rightarrow> (m, a)) = (c, a1)"
    for t a src m c a1
  proof -
    have a: "a = (decomp\<lparr>d_out_total := d_out_total decomp + t\<rparr>,
           params\<lparr>out_buffer := Some (w @ take t W), out_size := cap - t\<rparr>)" and t: "t \<le> cap"
      using q by (simp_all add: Q_def)
    have c: "c = min (cap - t) m"
      using r unfolding a by (simp add: decomp_ring_writer_Some)
    have "take c src = take c (take m src)" using c by (simp add: min_def)
    then have "take c src = take c (drop t W)"
      unfolding src W_def using c by (simp add: min_def)
    then have tk: "take t W @ take c src = take (t + c) W"
      by (simp add: take_add)
    have a1: "a1 = (decomp\<lparr>d_out_total := d_out_total decomp + (t + c)\<rparr>,
           params\<lparr>out_buffer := Some (w @ take (t + c) W), out_size := cap - (t + c)\<rparr>)"
      using r unfolding a by (simp add: decomp_ring_writer_Some c[symmetric] tk add.assoc)
    have "t + c \<le> cap" using c t by simp
    moreover have "c < m \<longrightarrow> cap - (t + c) = 0" using c by auto
    ultimately show ?thesis
      using c by (simp add: Q_def R_def a1)
  qed
  have q0: "Q 0 (decomp, params)"
    using out by (simp add: Q_def cap_def)
  have app0: "ring_appended ring ring (take 0 (ring_window ring offset n))"
    using inv by (simp add: ring_appended_refl)
  have "\<exists>tot1 ring1 a1.
      RingBuffer_copy_loop (Some decomp_ring_writer) offset n (ring, (decomp, params), 0, 0, 0) =
        (tot1, ring1, a1) \<and>
      tot1 \<le> n \<and> Q tot1 a1 \<and> (tot1 < n \<longrightarrow> R a1) \<and>
      ring_appended ring ring1 (take tot1 (ring_window ring offset n))"
    by (rule RingBuffer_copy_loop_rule[where Q=Q and R=R, OF inv rng cb _ q0 app0]) simp_all
  then obtain tot1 ring1 a1 where
    res: "RingBuffer_copy ring (Some decomp_ring_writer) (decomp, params) offset n = (tot1, ring1, a1)"
    and t1: "tot1 \<le> n" and q1: "Q tot1 a1" and r1: "tot1 < n \<longrightarrow> R a1"
    and app: "ring_appended ring ring1 (take tot1 W)"
    unfolding RingBuffer_copy_def W_def by auto
  have "tot1 = min n cap"
    using t1 q1 r1 by (auto simp: Q_def R_def min_def)
  then show ?thesis
    using res q1 app by (auto simp: Q_def W_def cap_def)
qed


lemma decomp_CopyData_window:
  assumes inv: "ring_inv (d_history decomp)"
    and rng: "d_read_offset decomp + d_read_size decomp \<le> ring_size (d_history decomp)"
    and out: "out_buffer params = Some w"
  shows "\<exists>ring1.
     ring_appended (d_history decomp) ring1
       (take (min (d_read_size decomp) (out_size params))
          (ring_window (d_history decomp) (d_read_offset decomp) (d_read_size decomp))) \<and>
     decomp_CopyData decomp params =
       (if d_read_size decomp \<le> out_size params then
          (GKeyStatus_OK, False, GKeyDecompState_Progress,
           decomp\<lparr>d_out_total := d_out_total decomp + d_read_size decomp, d_history := ring1\<rparr>,
           params\<lparr>out_buffer := Some (w @ ring_window (d_history decomp) (d_read_offset decomp)
                                             (d_read_size decomp)),
                  out_size := out_size params - d_read_size decomp\<rparr>)
        else
          (GKeyStatus_BufferOverflow, False, GKeyDecompState_CopyData,
           decomp\<lparr>d_out_total := d_out_total decomp + out_size params, d_history := ring1,
                  d_read_size := d_read_size decomp - out_size params\<rparr>,
           params\<lparr>out_buffer := Some (w @ take (out_size params)
                      (ring_window (d_history decomp) (d_read_offset decomp) (d_read_size decomp))),
                  out_size := 0\<rparr>))"
proof -
  from decomp_copy_window[OF inv rng out, of decomp]
  obtain ring1 where
    c: "RingBuffer_copy (d_history decomp) (Some decomp_ring_writer) (decomp, params)
          (d_read_offset decomp) (d_read_size decomp) =
       (min (d_read_size decomp) (out_size params), ring1,
        (decomp\<lparr>d_out_total := d_out_total decomp + min (d_read_size decomp) (out_size params)\<rparr>,
         params\<lparr>out_buffer := Some (w @ take (min (d_read_size decomp) (out_size params))
                    (ring_window (d_history decomp) (d_read_offset decomp) (d_read_size decomp))),
                out_size := out_size params - min (d_read_size decomp) (out_size params)\<rparr>))"
    and app: "ring_appended (d_history decomp) ring1
       (take (min (d_read_size decomp) (out_size params))
          (ring_window (d_history decomp) (d_read_offset decomp) (d_read_size decomp)))"
    by blast
  show ?thesis
  proof (cases "d_read_size decomp \<le> out_size params")
    case True
    then have "min (d_read_size decomp) (out_size params) = d_read_size decomp" by simp
    then show ?thesis
      using app c True by (intro exI[of _ ring1]) (simp add: decomp_CopyData_def Let_def)
  next
    case False
    then have "min (d_read_size decomp) (out_size params) = out_size params" by simp
    then show ?thesis
      using app c False by (intro exI[of _ ring1]) (simp add: decomp_CopyData_def Let_def)
  qed
qed

text \<open>
  Claim C7.  Let the decoder be in state \<open>CopyData\<close> with a copy of \<open>read_size\<close> bytes
  from \<open>read_offset\<close> pending, inside the ring, and let the output window hold fewer than
  \<open>read_size\<close> bytes.  The pass copies exactly \<open>out_size\<close> bytes, the first bytes of
  the window; it returns \<open>BufferOverflow\<close> and stays in \<open>CopyData\<close>, with \<open>read_size\<close>
  less by the bytes copied, \<open>read_offset\<close> unchanged and the ring's write position
  advanced by the bytes copied.  Run again with room for the rest, the pass writes exactly
  the remaining bytes of the window, returns \<open>OK\<close> and goes on to \<open>Progress\<close>; the
  history then is the one of an unbroken copy.
\<close>

theorem decomp_CopyData_resume:
  assumes "ring_inv (d_history decomp)"
    and "d_read_offset decomp + d_read_size decomp \<le> ring_size (d_history decomp)"
    and "out_buffer params = Some w" and "out_size params < d_read_size decomp"
    and "out_buffer params2 = Some w2"
    and "d_read_size decomp - out_size params \<le> out_size params2"
  shows "\<exists>decomp1 params1 decomp2 params3.
     decomp_switch GKeyDecompState_CopyData decomp params =
       Some (GKeyStatus_BufferOverflow, False, GKeyDecompState_CopyData, decomp1, params1) \<and>
     d_read_size decomp1 = d_read_size decomp - out_size params \<and>
     d_read_offset decomp1 = d_read_offset decomp \<and>
     d_out_total decomp1 = d_out_total decomp + out_size params \<and>
     out_buffer params1 =
       Some (w @ take (out_size params)
          (ring_window (d_history decomp) (d_read_offset decomp) (d_read_size decomp))) \<and>
     out_size params1 = 0 \<and>
     write_pos (d_history decomp1) =
       (write_pos (d_history decomp) + out_size params) mod ring_size (d_history decomp) \<and>
     decomp_switch GKeyDecompState_CopyData decomp1 params2 =
       Some (GKeyStatus_OK, False, GKeyDecompState_Progress, decomp2, params3) \<and>
     out_buffer params3 =
       Some (w2 @ drop (out_size params)
          (ring_window (d_history decomp) (d_read_offset decomp) (d_read_size decomp))) \<and>
     out_size params3 = out_size params2 - (d_read_size decomp - out_size params) \<and>
     d_out_total decomp2 = d_out_total decomp + d_read_size decomp \<and>
     ring_appended (d_history decomp) (d_history decomp2)
       (ring_window (d_history decomp) (d_read_offset decomp) (d_read_size decomp))"
proof -
  define ring where "ring = d_history decomp"
  define n where "n = d_read_size decomp"
  define off where "off = d_read_offset decomp"
  define m where "m = out_size params"
  define W where "W = ring_window ring off n"
  have mn: "m < n" using assms(4) by (simp add: m_def n_def)
  have lW: "length W = n" by (simp add: W_def)
  from decomp_CopyData_window[OF assms(1,2,3)] assms(4)
  obtain ring1 where
    app1: "ring_appended ring ring1 (take m W)" and
    s1: "decomp_CopyData decomp params =
          (GKeyStatus_BufferOverflow, False, GKeyDecompState_CopyData,
           decomp\<lparr>d_out_total := d_out_total decomp + m, d_history := ring1,
                  d_read_size := n - m\<rparr>,
           params\<lparr>out_buffer := Some (w @ take m W), out_size := 0\<rparr>)"
    by (auto simp: ring_def n_def off_def m_def W_def min_def)
  define decomp1 where "decomp1 = decomp\<lparr>d_out_total := d_out_total decomp + m,
      d_history := ring1, d_read_size := n - m\<rparr>"
  define params1 where "params1 = params\<lparr>out_buffer := Some (w @ take m W), out_size := 0\<rparr>"
  have inv1: "ring_inv (d_history decomp1)"
    using app1 by (simp add: decomp1_def ring_appended_def)
  have sz1: "ring_size ring1 = ring_size ring" using app1 by (rule ring_appended_size)
  have rng1: "d_read_offset decomp1 + d_read_size decomp1 \<le> ring_size (d_history decomp1)"
    using assms(2) mn by (simp add: decomp1_def sz1 ring_def n_def)
  have rng: "off + n \<le> ring_size ring" using assms(2) by (simp add: ring_def n_def off_def)
  have win1: "ring_window ring1 off (n - m) = drop m W"
    using ring_window_after[OF app1[unfolded W_def] rng, of "n - m"] mn lW
    by (simp add: W_def)
  have room: "d_read_size decomp1 \<le> out_size params2"
    using assms(6) by (simp add: decomp1_def n_def m_def)
  from decomp_CopyData_window[OF inv1 rng1 assms(5)] room
  obtain ring2 where
    app2: "ring_appended ring1 ring2 (drop m W)" and
    s2: "decomp_CopyData decomp1 params2 =
          (GKeyStatus_OK, False, GKeyDecompState_Progress,
           decomp1\<lparr>d_out_total := d_out_total decomp1 + (n - m), d_history := ring2\<rparr>,
           params2\<lparr>out_buffer := Some (w2 @ drop m W), out_size := out_size params2 - (n - m)\<rparr>)"
    using win1 lW by (auto simp: decomp1_def off_def)
  have "ring_appended ring ring2 (take m W @ drop m W)"
    using ring_appended_trans[OF app1 app2] assms(1) by (simp add: ring_def)
  then have app: "ring_appended ring ring2 W" by simp
  have wp1: "write_pos ring1 = (write_pos ring + m) mod ring_size ring"
    using app1 mn lW by (simp add: ring_appended_def)
  show ?thesis
    apply (rule exI[of _ decomp1], rule exI[of _ params1])
    apply (rule exI[of _ "decomp1\<lparr>d_out_total := d_out_total decomp1 + (n - m), d_history := ring2\<rparr>"])
    apply (rule exI[of _ "params2\<lparr>out_buffer := Some (w2 @ drop m W),
              out_size := out_size params2 - (n - m)\<rparr>"])
    using s1 s2 app wp1 mn
    by (simp add: decomp_switch_def decomp1_def params1_def ring_def n_def off_def m_def W_def)
qed

definition copy_pending :: GKeyDecomp where
  "copy_pending = (gkeydecomp_make 2)\<lparr>d_read_offset := 1, d_read_size := 3\<rparr>"

definition room_for :: "nat \<Rightarrow> GKeyParameters" where
  "room_for n = \<lparr>in_buffer = [], in_size = 0, out_buffer = Some [], out_size = n, prog_cb = None\<rparr>"

theorem decomp_CopyData_resume_witness:
  "ring_inv (d_history copy_pending) \<and>
   d_read_offset copy_pending + d_read_size copy_pending \<le> ring_size (d_history copy_pending) \<and>
   out_buffer (room_for 1) = Some [] \<and> out_size (room_for 1) < d_read_size copy_pending \<and>
   out_buffer (room_for 5) = Some [] \<and>
   d_read_size copy_pending - out_size (room_for 1) \<le> out_size (room_for 5) \<and>
   (\<exists>decomp1 params1 decomp2 params3.
     decomp_switch GKeyDecompState_CopyData copy_pending (room_for 1) =
       Some (GKeyStatus_BufferOverflow, False, GKeyDecompState_CopyData, decomp1, params1) \<and>
     d_read_size decomp1 = d_read_size copy_pending - out_size (room_for 1) \<and>
     d_read_offset decomp1 = d_read_offset copy_pending \<and>
     d_out_total decomp1 = d_out_total copy_pending + out_size (room_for 1) \<and>
     out_buffer params1 =
       Some ([] @ take (out_size (room_for 1))
          (ring_window (d_history copy_pending) (d_read_offset copy_pending)
             (d_read_size copy_pending))) \<and>
     out_size params1 = 0 \<and>
     write_pos (d_history decomp1) =
       (write_pos (d_history copy_pending) + out_size (room_for 1))
         mod ring_size (d_history copy_pending) \<and>
     decomp_switch GKeyDecompState_CopyData decomp1 (room_for 5) =
       Some (GKeyStatus_OK, False, GKeyDecompState_Progress, decomp2, params3) \<and>
     out_buffer params3 =
       Some ([] @ drop (out_size (room_for 1))
          (ring_window (d_history copy_pending) (d_read_offset copy_pending)
             (d_read_size copy_pending))) \<and>
     out_size params3 = out_size (room_for 5) - (d_read_size copy_pending - out_size (room_for 1)) \<and>
     d_out_total decomp2 = d_out_total copy_pending + d_read_size copy_pending \<and>
     ring_appended (d_history copy_pending) (d_history decomp2)
       (ring_window (d_history copy_pending) (d_read_offset copy_pending)
          (d_read_size copy_pending)))"
proof -
  have h1: "ring_inv (d_history copy_pending)"
    by (simp add: copy_pending_def gkeydecomp_make_def RingBuffer_make_def RingBuffer_init_def
        RingBuffer_reset_def ring_inv_def ring_size_def)
  have h2: "d_read_offset copy_pending + d_read_size copy_pending \<le> ring_size (d_history copy_pending)"
    by (simp add: copy_pending_def gkeydecomp_make_def RingBuffer_make_def RingBuffer_init_def
        RingBuffer_reset_def ring_size_def)
  have h3: "out_buffer (room_for 1) = Some []" and h5: "out_buffer (room_for 5) = Some []"
    by (simp_all add: room_for_def)
  have h4: "out_size (room_for 1) < d_read_size copy_pending"
    by (simp add: room_for_def copy_pending_def)
  have h6: "d_read_size copy_pending - out_size (room_for 1) \<le> out_size (room_for 5)"
    by (simp add: room_for_def copy_pending_def)
  show ?thesis
    using decomp_CopyData_resume[OF h1 h2 h3 h4 h5 h6] h1 h2 h3 h4 h5 h6 by blast
qed

section \<open>The bits written by the compressor\<close>

lemma or_push_bit_add:
  assumes "(a::nat) < 2 ^ n"
  shows "a OR push_bit n b = a + 2 ^ n * b"
proof -
  have t: "take_bit n (int a) = int a"
    using assms by (simp add: take_bit_int_eq_self)
  have "int (a OR push_bit n b) = take_bit n (int a) OR push_bit n (int b)"
    by (simp add: of_nat_or_eq of_nat_push_bit t)
  also have "\<dots> = take_bit n (int a) + push_bit n (int b)"
    using concat_bit_def[of n "int a" "int b"] concat_bit_eq[of n "int a" "int b"] by simp
  also have "\<dots> = int (a + 2 ^ n * b)"
    by (simp add: t push_bit_eq_mult mult.commute)
  finally show ?thesis by (simp only: of_nat_eq_iff)
qed

text \<open>
  The value of a byte sequence read as one number, first byte lowest; the stream of bits
  the compressor has produced is that number for the bytes written, continued by the
  accumulator.
\<close>

primrec bytes_val :: "byte list \<Rightarrow> nat" where
  "bytes_val [] = 0"
| "bytes_val (b # bs) = unat b + 256 * bytes_val bs"

lemma pow8_Suc: "(2::nat) ^ (8 * Suc n) = 256 * 2 ^ (8 * n)"
  by (simp add: power_add)

lemma bytes_val_append:
  "bytes_val (w @ v) = bytes_val w + 2 ^ (8 * length w) * bytes_val v"
proof (induction w)
  case Nil
  show ?case by simp
next
  case (Cons b w)
  have "bytes_val ((b # w) @ v) = unat b + 256 * (bytes_val w + 2 ^ (8 * length w) * bytes_val v)"
    using Cons.IH by simp
  also have "\<dots> = bytes_val (b # w) + (256 * 2 ^ (8 * length w)) * bytes_val v"
    by (simp add: algebra_simps)
  finally show ?case by (simp only: pow8_Suc length_Cons)
qed

lemma bytes_val_less: "bytes_val w < 2 ^ (8 * length w)"
proof (induction w)
  case Nil
  show ?case by simp
next
  case (Cons b w)
  have "unat b < 256" using unsigned_less[of b] by simp
  then have "unat b + 256 * bytes_val w < 256 * (bytes_val w + 1)" by simp
  also have "\<dots> \<le> 256 * 2 ^ (8 * length w)"
    using Cons.IH by (intro mult_le_mono2) simp
  finally show ?case by (simp only: pow8_Suc length_Cons bytes_val.simps)
qed

definition out_stream :: "byte list \<Rightarrow> nat \<Rightarrow> nat" where
  "out_stream w acc = bytes_val w + 2 ^ (8 * length w) * acc"

lemma write_bits_loop_stream:
  assumes "acc < 2 ^ accn" "accn div 8 \<le> outsz"
  shows "\<exists>v acc1.
     write_bits_loop (Some w, outsz, outtot, acc, accn) =
       (True, Some (w @ v), outsz - accn div 8, outtot + accn div 8, acc1, accn mod 8) \<and>
     length v = accn div 8 \<and> acc1 < 2 ^ (accn mod 8) \<and>
     out_stream (w @ v) acc1 = out_stream w acc"
  using assms
proof (induction "(Some w, outsz, outtot, acc, accn)" arbitrary: w outsz outtot acc accn
    rule: write_bits_loop.induct)
  case (1 outsz outtot acc accn w)
  show ?case
  proof (cases "accn \<ge> CHAR_BIT")
    case False
    then have "write_bits_loop (Some w, outsz, outtot, acc, accn) =
        (True, Some w, outsz, outtot, acc, accn)"
      by (subst write_bits_loop.simps) simp
    moreover have "accn div 8 = 0" "accn mod 8 = accn" using False by simp_all
    ultimately show ?thesis
      using "1.prems" by (intro exI[of _ "[]"] exI[of _ acc]) simp
  next
    case True
    then have pos: "0 < outsz" using "1.prems"(2) by (cases "accn div 8") auto
    have c2: "\<not> (Some w \<noteq> None \<and> outsz = 0)" using pos by simp
    have b: "write_bits_body (Some w, outsz, outtot, acc, accn) =
        (Some (w @ [of_nat acc]), outsz - 1, outtot + 1, drop_bit CHAR_BIT acc, accn - CHAR_BIT)"
      by (simp add: write_bits_body_def Let_def)
    have step: "write_bits_loop (Some w, outsz, outtot, acc, accn) =
        write_bits_loop (Some (w @ [of_nat acc]), outsz - 1, outtot + 1,
           drop_bit CHAR_BIT acc, accn - CHAR_BIT)"
      using True c2 by (subst write_bits_loop.simps) (simp add: b)
    have d8: "(accn - 8) div 8 = accn div 8 - 1" "(accn - 8) mod 8 = accn mod 8"
      using True le_div_geq[of 8 accn] le_mod_geq[of 8 accn] by simp_all
    have a1: "drop_bit CHAR_BIT acc < 2 ^ (accn - CHAR_BIT)"
    proof -
      have "(2::nat) ^ accn = 2 ^ (8 + (accn - 8))" using True by simp
      then have "(2::nat) ^ accn = 2 ^ 8 * 2 ^ (accn - 8)" by (simp only: power_add)
      then have "acc < 2 ^ 8 * 2 ^ (accn - 8)"
        using "1.prems"(1) by simp
      then show ?thesis
        by (simp add: drop_bit_eq_div less_mult_imp_div_less mult.commute)
    qed
    have a2: "(accn - CHAR_BIT) div 8 \<le> outsz - 1"
      using "1.prems"(2) unfolding d8 by linarith
    from "1.hyps"[OF True c2 b a1 a2]
    obtain v acc1 where
      r: "write_bits_loop (Some (w @ [of_nat acc]), outsz - 1, outtot + 1,
             drop_bit CHAR_BIT acc, accn - CHAR_BIT) =
          (True, Some ((w @ [of_nat acc]) @ v), outsz - 1 - (accn - CHAR_BIT) div 8,
           outtot + 1 + (accn - CHAR_BIT) div 8, acc1, (accn - CHAR_BIT) mod 8)"
      and l: "length v = (accn - CHAR_BIT) div 8" and a: "acc1 < 2 ^ ((accn - CHAR_BIT) mod 8)"
      and s: "out_stream ((w @ [of_nat acc]) @ v) acc1 =
          out_stream (w @ [of_nat acc]) (drop_bit CHAR_BIT acc)"
      by blast
    have dpos: "0 < accn div 8" using True le_div_geq[of 8 accn] by simp
    have "unat (of_nat acc :: byte) = acc mod 256" by (simp add: unat_of_nat)
    then have "out_stream (w @ [of_nat acc]) (drop_bit CHAR_BIT acc) =
        bytes_val w + 2 ^ (8 * length w) * (acc mod 256) +
        2 ^ (8 * length w) * (256 * (acc div 256))"
      by (simp add: out_stream_def bytes_val_append drop_bit_eq_div power_add algebra_simps)
    also have "\<dots> = bytes_val w + 2 ^ (8 * length w) * (acc mod 256 + 256 * (acc div 256))"
      by (simp only: distrib_left add.assoc)
    also have "\<dots> = out_stream w acc"
      by (simp add: out_stream_def)
    finally have s2: "out_stream (w @ [of_nat acc]) (drop_bit CHAR_BIT acc) = out_stream w acc" .
    show ?thesis
      apply (rule exI[of _ "[of_nat acc] @ v"], rule exI[of _ acc1])
      using r l a s s2 d8 dpos pos by (simp add: step)
  qed
qed

text \<open>
  \<open>comp_emitted c0 p0 c p V n\<close>: between \<open>(c0, p0)\<close> and \<open>(c, p)\<close> the compressor has
  appended to its bit stream the \<open>n\<close> bits of the number \<open>V\<close>, lowest bit first; whole
  bytes have gone to the output buffer and the rest waits in the accumulator.
\<close>

definition comp_emitted ::
  "GKeyComp \<Rightarrow> GKeyParameters \<Rightarrow> GKeyComp \<Rightarrow> GKeyParameters \<Rightarrow> nat \<Rightarrow> nat \<Rightarrow> bool" where
  "comp_emitted c0 p0 c p V n =
     (\<exists>w v A N.
        out_buffer p0 = Some w \<and> length v \<le> out_size p0 \<and>
        p = p0\<lparr>out_buffer := Some (w @ v), out_size := out_size p0 - length v\<rparr> \<and>
        c = c0\<lparr>c_out_total := c_out_total c0 + length v, c_acc := A, c_acc_nbits := N\<rparr> \<and>
        A < 2 ^ N \<and> c_acc_nbits c0 + n = 8 * length v + N \<and>
        out_stream (w @ v) A = out_stream w (c_acc c0) + 2 ^ (8 * length w + c_acc_nbits c0) * V)"

lemma comp_emitted_refl:
  "out_buffer p = Some w \<Longrightarrow> c_acc c < 2 ^ c_acc_nbits c \<Longrightarrow> comp_emitted c p c p 0 0"
  unfolding comp_emitted_def
  by (intro exI[of _ w] exI[of _ "[]"] exI[of _ "c_acc c"] exI[of _ "c_acc_nbits c"]) simp

lemma comp_emitted_trans:
  assumes 1: "comp_emitted c0 p0 c1 p1 V1 n1" and 2: "comp_emitted c1 p1 c2 p2 V2 n2"
  shows "comp_emitted c0 p0 c2 p2 (V1 + 2 ^ n1 * V2) (n1 + n2)"
proof -
  from 1 obtain w v1 A1 N1 where a:
    "out_buffer p0 = Some w" "length v1 \<le> out_size p0"
    "p1 = p0\<lparr>out_buffer := Some (w @ v1), out_size := out_size p0 - length v1\<rparr>"
    "c1 = c0\<lparr>c_out_total := c_out_total c0 + length v1, c_acc := A1, c_acc_nbits := N1\<rparr>"
    "c_acc_nbits c0 + n1 = 8 * length v1 + N1"
    "out_stream (w @ v1) A1 = out_stream w (c_acc c0) + 2 ^ (8 * length w + c_acc_nbits c0) * V1"
    unfolding comp_emitted_def by blast
  have o1: "out_buffer p1 = Some (w @ v1)" "out_size p1 = out_size p0 - length v1"
    "c_acc c1 = A1" "c_acc_nbits c1 = N1" "c_out_total c1 = c_out_total c0 + length v1"
    by (simp_all add: a(3,4))
  from 2 obtain w' v2 A2 N2 where b:
    "out_buffer p1 = Some w'" "length v2 \<le> out_size p1"
    "p2 = p1\<lparr>out_buffer := Some (w' @ v2), out_size := out_size p1 - length v2\<rparr>"
    "c2 = c1\<lparr>c_out_total := c_out_total c1 + length v2, c_acc := A2, c_acc_nbits := N2\<rparr>"
    "A2 < 2 ^ N2" "c_acc_nbits c1 + n2 = 8 * length v2 + N2"
    "out_stream (w' @ v2) A2 = out_stream w' (c_acc c1) + 2 ^ (8 * length w' + c_acc_nbits c1) * V2"
    unfolding comp_emitted_def by blast
  have w': "w' = w @ v1" using b(1) o1(1) by simp
  have e: "8 * length (w @ v1) + N1 = (8 * length w + c_acc_nbits c0) + n1"
    using a(5) by simp
  have s: "out_stream (w @ (v1 @ v2)) A2 =
      out_stream w (c_acc c0) + 2 ^ (8 * length w + c_acc_nbits c0) * (V1 + 2 ^ n1 * V2)"
    using b(7) unfolding w' o1 a(6) e by (simp add: power_add algebra_simps)
  have p2: "p2 = p0\<lparr>out_buffer := Some (w @ (v1 @ v2)), out_size := out_size p0 - length (v1 @ v2)\<rparr>"
    unfolding b(3) w' o1 a(3) by simp
  have c2: "c2 = c0\<lparr>c_out_total := c_out_total c0 + length (v1 @ v2), c_acc := A2, c_acc_nbits := N2\<rparr>"
    unfolding b(4) o1 a(4) by (simp add: add.assoc)
  have l: "length (v1 @ v2) \<le> out_size p0" using a(2) b(2) o1(2) by simp
  have n: "c_acc_nbits c0 + (n1 + n2) = 8 * length (v1 @ v2) + N2"
    using a(5) b(6) o1(4) by simp
  show ?thesis
    unfolding comp_emitted_def
    by (intro exI[of _ w] exI[of _ "v1 @ v2"] exI[of _ A2] exI[of _ N2] conjI a(1) l p2 c2 b(5) n s)
qed

lemma write_bits_emitted:
  assumes out: "out_buffer params = Some w" and acc: "c_acc cmpr < 2 ^ c_acc_nbits cmpr"
    and n: "nbits \<noteq> UINT_MAX" and bits: "bits < 2 ^ nbits"
    and room: "c_acc_nbits cmpr div 8 \<le> out_size params"
  shows "\<exists>c1 p1. write_bits cmpr params nbits bits = (True, c1, p1) \<and>
           comp_emitted cmpr params c1 p1 bits nbits"
proof -
  from write_bits_loop_stream[OF acc room, of w "c_out_total cmpr"]
  obtain v acc1 where
    l: "write_bits_loop (Some w, out_size params, c_out_total cmpr, c_acc cmpr, c_acc_nbits cmpr) =
       (True, Some (w @ v), out_size params - c_acc_nbits cmpr div 8,
        c_out_total cmpr + c_acc_nbits cmpr div 8, acc1, c_acc_nbits cmpr mod 8)"
    and lv: "length v = c_acc_nbits cmpr div 8" and a1: "acc1 < 2 ^ (c_acc_nbits cmpr mod 8)"
    and s: "out_stream (w @ v) acc1 = out_stream w (c_acc cmpr)"
    by blast
  define m where "m = c_acc_nbits cmpr mod 8"
  define A where "A = acc1 OR push_bit m bits"
  define c1 where "c1 = cmpr\<lparr>c_out_total := c_out_total cmpr + c_acc_nbits cmpr div 8,
      c_acc := A, c_acc_nbits := m + nbits\<rparr>"
  define p1 where "p1 = params\<lparr>out_buffer := Some (w @ v),
      out_size := out_size params - c_acc_nbits cmpr div 8\<rparr>"
  have w: "write_bits cmpr params nbits bits = (True, c1, p1)"
    unfolding write_bits_def Let_def using n
    by (simp add: out l c1_def p1_def A_def m_def)
  have A: "A = acc1 + 2 ^ m * bits"
    unfolding A_def using a1 by (simp add: or_push_bit_add m_def)
  have "acc1 + 2 ^ m * bits < 2 ^ m * (1 + bits)" using a1 by (simp add: m_def)
  also have "\<dots> \<le> 2 ^ m * 2 ^ nbits" using bits by (intro mult_le_mono2) simp
  finally have Alt: "A < 2 ^ (m + nbits)" by (simp add: A power_add)
  have len: "8 * length v + m = c_acc_nbits cmpr"
    by (simp add: lv m_def)
  have "out_stream (w @ v) A = out_stream (w @ v) acc1 + 2 ^ (8 * length (w @ v)) * (2 ^ m * bits)"
    by (simp add: out_stream_def A algebra_simps)
  also have "2 ^ (8 * length (w @ v)) * (2 ^ m * bits) =
      2 ^ (8 * length w + (8 * length v + m)) * bits"
    by (simp add: power_add algebra_simps)
  finally have st: "out_stream (w @ v) A =
      out_stream w (c_acc cmpr) + 2 ^ (8 * length w + c_acc_nbits cmpr) * bits"
    by (simp only: s len)
  have "comp_emitted cmpr params c1 p1 bits nbits"
    unfolding comp_emitted_def
    apply (rule exI[of _ w], rule exI[of _ v], rule exI[of _ A], rule exI[of _ "m + nbits"])
    using out room lv Alt st len by (simp add: c1_def p1_def)
  then show ?thesis using w by blast
qed

lemma comp_emitted_post:
  "comp_emitted c0 p0 c p V n \<Longrightarrow> (\<exists>w. out_buffer p = Some w) \<and> c_acc c < 2 ^ c_acc_nbits c"
  unfolding comp_emitted_def by auto

lemma comp_emitted_room:
  assumes "comp_emitted c0 p0 c p V n" "(c_acc_nbits c0 + n + x) div 8 \<le> out_size p0"
  shows "(c_acc_nbits c + x) div 8 \<le> out_size p"
proof -
  from assms(1) obtain w v A N where b:
    "length v \<le> out_size p0"
    "p = p0\<lparr>out_buffer := Some (w @ v), out_size := out_size p0 - length v\<rparr>"
    "c = c0\<lparr>c_out_total := c_out_total c0 + length v, c_acc := A, c_acc_nbits := N\<rparr>"
    "c_acc_nbits c0 + n = 8 * length v + N"
    unfolding comp_emitted_def by blast
  have a: "out_size p = out_size p0 - length v" "length v \<le> out_size p0"
       "c_acc_nbits c0 + n = 8 * length v + N" "c_acc_nbits c = N"
    using b(1,4) by (simp_all add: b(2,3))
  have "(c_acc_nbits c0 + n + x) div 8 = length v + (N + x) div 8"
    unfolding a(3) by (simp add: add.assoc)
  then show ?thesis using assms(2) a(1,2,4) by linarith
qed

lemma comp_ring_writer_loop_step:
  assumes "nout < n"
    "write_bits cmpr params (CHAR_BIT + 1) (push_bit 1 (unat (literals ! nout))) = (ok, c1, p1)"
  shows "comp_ring_writer_loop literals n (cmpr, params, nout) =
     (if \<not> ok then (nout, (c1, p1)) else comp_ring_writer_loop literals n (c1, p1, nout + 1))"
  by (subst comp_ring_writer_loop.simps) (simp only: assms if_True prod.case)

text \<open>The bits of a run of tagged literals: for each byte a 0 bit and then its 8 bits.\<close>

primrec literal_run :: "byte list \<Rightarrow> nat" where
  "literal_run [] = 0"
| "literal_run (b # bs) = 2 * unat b + 2 ^ 9 * literal_run bs"

lemma literal_run_append:
  "literal_run (xs @ ys) = literal_run xs + 2 ^ (9 * length xs) * literal_run ys"
proof (induction xs)
  case Nil
  show ?case by simp
next
  case (Cons b xs)
  have "(2::nat) ^ (9 * length (b # xs)) = 2 ^ 9 * 2 ^ (9 * length xs)"
    by (simp add: power_add)
  then show ?case using Cons.IH by (simp add: algebra_simps)
qed

lemma comp_ring_writer_loop_emitted:
  assumes "out_buffer p = Some w" "c_acc c < 2 ^ c_acc_nbits c" "nout \<le> m" "m \<le> length literals"
    "(c_acc_nbits c + 9 * (m - nout)) div 8 \<le> out_size p"
  shows "\<exists>c1 p1. comp_ring_writer_loop literals m (c, p, nout) = (m, (c1, p1)) \<and>
           comp_emitted c p c1 p1 (literal_run (take (m - nout) (drop nout literals))) (9 * (m - nout))"
  using assms
proof (induction "m - nout" arbitrary: c p nout w)
  case 0
  then have "comp_ring_writer_loop literals m (c, p, nout) = (m, (c, p))"
    by (subst comp_ring_writer_loop.simps) simp
  then show ?case
    using 0 comp_emitted_refl[OF "0.prems"(1,2)] by simp
next
  case (Suc k)
  have lt: "nout < m" using Suc.hyps(2) by simp
  define b where "b = literals ! nout"
  have bits: "push_bit 1 (unat b) < 2 ^ (CHAR_BIT + 1)"
    using unsigned_less[of b] by (simp add: push_bit_eq_mult)
  have room: "c_acc_nbits c div 8 \<le> out_size p"
  proof -
    have "c_acc_nbits c div 8 \<le> (c_acc_nbits c + 9 * (m - nout)) div 8"
      by (intro div_le_mono) simp
    then show ?thesis using Suc.prems(5) by linarith
  qed
  have nu: "CHAR_BIT + 1 \<noteq> UINT_MAX" by (simp add: UINT_MAX_def)
  from write_bits_emitted[OF Suc.prems(1,2) nu bits room]
  obtain c1 p1 where
    w: "write_bits c p (CHAR_BIT + 1) (push_bit 1 (unat (literals ! nout))) = (True, c1, p1)"
    and e: "comp_emitted c p c1 p1 (push_bit 1 (unat b)) (CHAR_BIT + 1)"
    unfolding b_def by blast
  have step: "comp_ring_writer_loop literals m (c, p, nout) =
      comp_ring_writer_loop literals m (c1, p1, nout + 1)"
    using comp_ring_writer_loop_step[OF lt w] by simp
  obtain w1 where o1: "out_buffer p1 = Some w1" and a1: "c_acc c1 < 2 ^ c_acc_nbits c1"
    using comp_emitted_post[OF e] by blast
  have k: "k = m - (nout + 1)" using Suc.hyps(2) by simp
  have "(c_acc_nbits c + (CHAR_BIT + 1) + 9 * (m - (nout + 1))) div 8 \<le> out_size p"
  proof -
    have "c_acc_nbits c + (CHAR_BIT + 1) + 9 * (m - (nout + 1)) = c_acc_nbits c + 9 * (m - nout)"
      using lt by (simp add: algebra_simps)
    then show ?thesis using Suc.prems(5) by simp
  qed
  from comp_emitted_room[OF e this]
  have r1: "(c_acc_nbits c1 + 9 * (m - (nout + 1))) div 8 \<le> out_size p1" .
  from Suc.hyps(1)[OF k o1 a1 _ Suc.prems(4) r1] lt
  obtain c2 p2 where
    l2: "comp_ring_writer_loop literals m (c1, p1, nout + 1) = (m, (c2, p2))" and
    e2: "comp_emitted c1 p1 c2 p2
       (literal_run (take (m - (nout + 1)) (drop (nout + 1) literals))) (9 * (m - (nout + 1)))"
    by auto
  have tk: "take (m - nout) (drop nout literals) =
      b # take (m - (nout + 1)) (drop (nout + 1) literals)"
  proof -
    have "drop nout literals = literals ! nout # drop (Suc nout) literals"
      using lt Suc.prems(4) by (intro Cons_nth_drop_Suc[symmetric]) simp
    moreover have "m - nout = Suc (m - (nout + 1))" using lt by simp
    ultimately show ?thesis by (simp add: b_def)
  qed
  have V: "literal_run (take (m - nout) (drop nout literals)) =
      push_bit 1 (unat b) + 2 ^ (CHAR_BIT + 1) *
        literal_run (take (m - (nout + 1)) (drop (nout + 1) literals))"
    unfolding tk by (simp add: push_bit_eq_mult)
  have N: "9 * (m - nout) = (CHAR_BIT + 1) + 9 * (m - (nout + 1))"
    using lt by simp
  have "comp_emitted c p c2 p2 (literal_run (take (m - nout) (drop nout literals))) (9 * (m - nout))"
    unfolding V N by (rule comp_emitted_trans[OF e e2])
  then show ?case using step l2 by simp
qed

lemma comp_copy_literals:
  assumes inv: "ring_inv ring" and rng: "offset + n \<le> ring_size ring"
    and out: "out_buffer p = Some w" and acc: "c_acc c < 2 ^ c_acc_nbits c"
    and room: "(c_acc_nbits c + 9 * n) div 8 \<le> out_size p"
  shows "\<exists>ring1 c1 p1.
     RingBuffer_copy ring (Some comp_ring_writer) (c, p) offset n = (n, ring1, (c1, p1)) \<and>
     comp_emitted c p c1 p1 (literal_run (ring_window ring offset n)) (9 * n) \<and>
     ring_appended ring ring1 (ring_window ring offset n)"
proof -
  define W where "W = ring_window ring offset n"
  define Q where "Q = (\<lambda>t (a :: GKeyComp \<times> GKeyParameters).
      comp_emitted c p (fst a) (snd a) (literal_run (take t W)) (9 * t))"
  define R where "R = (\<lambda>a :: GKeyComp \<times> GKeyParameters. False)"
  have cb: "k \<le> m \<and> Q (t + k) a1 \<and> (k < m \<longrightarrow> R a1)"
    if q: "Q t a" and m: "0 < m" "t + m \<le> n"
      and src: "take m src = take m (drop t (ring_window ring offset n))"
      and r: "(case Some comp_ring_writer of Some f \<Rightarrow> f a src m | None \<Rightarrow> (m, a)) = (k, a1)"
    for t a src m k a1
  proof -
    have e0: "comp_emitted c p (fst a) (snd a) (literal_run (take t W)) (9 * t)"
      using q by (simp add: Q_def)
    obtain w0 where o0: "out_buffer (snd a) = Some w0"
      and a0: "c_acc (fst a) < 2 ^ c_acc_nbits (fst a)"
      using comp_emitted_post[OF e0] by blast
    have lsrc: "m \<le> length src"
    proof -
      have "length (take m src) = m" unfolding src using m(2) by (simp add: W_def)
      then show ?thesis by simp
    qed
    have "(c_acc_nbits c + 9 * t + 9 * m) div 8 \<le> (c_acc_nbits c + 9 * n) div 8"
      using m(2) by (intro div_le_mono) simp
    then have "(c_acc_nbits c + 9 * t + 9 * m) div 8 \<le> out_size p" using room by linarith
    from comp_emitted_room[OF e0 this]
    have r0: "(c_acc_nbits (fst a) + 9 * (m - 0)) div 8 \<le> out_size (snd a)" by simp
    from comp_ring_writer_loop_emitted[OF o0 a0 _ lsrc r0]
    obtain c1 p1 where
      l: "comp_ring_writer_loop src m (fst a, snd a, 0) = (m, (c1, p1))" and
      e1: "comp_emitted (fst a) (snd a) c1 p1 (literal_run (take m src)) (9 * m)"
      by auto
    have k: "k = m" "a1 = (c1, p1)"
      using r l by (simp_all add: comp_ring_writer_def)
    have "literal_run (take (t + m) W) = literal_run (take t W) + 2 ^ (9 * t) * literal_run (take m src)"
    proof -
      have "take (t + m) W = take t W @ take m (drop t W)" by (rule take_add)
      moreover have "length (take t W) = t" using m(2) by (simp add: W_def)
      ultimately show ?thesis
        unfolding src by (simp add: literal_run_append W_def)
    qed
    moreover have "9 * (t + m) = 9 * t + 9 * m" by simp
    ultimately have "comp_emitted c p c1 p1 (literal_run (take (t + m) W)) (9 * (t + m))"
      using comp_emitted_trans[OF e0 e1] by simp
    then show ?thesis by (simp add: k Q_def)
  qed
  have q0: "Q 0 (c, p)"
    using comp_emitted_refl[OF out acc] by (simp add: Q_def)
  have app0: "ring_appended ring ring (take 0 (ring_window ring offset n))"
    using inv by (simp add: ring_appended_refl)
  have "\<exists>tot1 ring1 a1.
      RingBuffer_copy_loop (Some comp_ring_writer) offset n (ring, (c, p), 0, 0, 0) =
        (tot1, ring1, a1) \<and>
      tot1 \<le> n \<and> Q tot1 a1 \<and> (tot1 < n \<longrightarrow> R a1) \<and>
      ring_appended ring ring1 (take tot1 (ring_window ring offset n))"
    by (rule RingBuffer_copy_loop_rule[where Q=Q and R=R, OF inv rng cb _ q0 app0]) simp_all
  then obtain tot1 ring1 a1 where
    res: "RingBuffer_copy ring (Some comp_ring_writer) (c, p) offset n = (tot1, ring1, a1)"
    and t1: "tot1 \<le> n" and q1: "Q tot1 a1" and r1: "tot1 < n \<longrightarrow> R a1"
    and app: "ring_appended ring ring1 (take tot1 W)"
    unfolding RingBuffer_copy_def W_def by auto
  have tn: "tot1 = n" using t1 r1 by (auto simp: R_def)
  show ?thesis
    apply (rule exI[of _ ring1], rule exI[of _ "fst a1"], rule exI[of _ "snd a1"])
    using res q1 app by (simp add: tn Q_def W_def)
qed

lemma copy_plain:
  assumes inv: "ring_inv ring" and rng: "offset + n \<le> ring_size ring"
  shows "\<exists>ring1. RingBuffer_copy ring None () offset n = (n, ring1, ()) \<and>
     ring_appended ring ring1 (ring_window ring offset n)"
proof -
  define Q where "Q = (\<lambda>(t::nat) (a::unit). True)"
  define R where "R = (\<lambda>a :: unit. False)"
  have cb: "k \<le> m \<and> Q (t + k) a1 \<and> (k < m \<longrightarrow> R a1)"
    if "(case (None :: (unit \<Rightarrow> byte list \<Rightarrow> nat \<Rightarrow> nat \<times> unit) option) of
           Some f \<Rightarrow> f a src m | None \<Rightarrow> (m, a)) = (k, a1)"
    for t a src m k a1
    using that by (simp add: Q_def)
  have app0: "ring_appended ring ring (take 0 (ring_window ring offset n))"
    using inv by (simp add: ring_appended_refl)
  have "\<exists>tot1 ring1 a1.
      RingBuffer_copy_loop None offset n (ring, (), 0, 0, 0) = (tot1, ring1, a1) \<and>
      tot1 \<le> n \<and> Q tot1 a1 \<and> (tot1 < n \<longrightarrow> R a1) \<and>
      ring_appended ring ring1 (take tot1 (ring_window ring offset n))"
    by (rule RingBuffer_copy_loop_rule[where Q=Q and R=R, OF inv rng cb _ _ app0])
       (simp_all add: Q_def)
  then obtain tot1 ring1 where
    res: "RingBuffer_copy ring None () offset n = (tot1, ring1, ())"
    and t1: "tot1 \<le> n" and r1: "tot1 < n \<longrightarrow> R ()"
    and app: "ring_appended ring ring1 (take tot1 (ring_window ring offset n))"
    unfolding RingBuffer_copy_def by auto
  have "tot1 = n" using t1 r1 by (auto simp: R_def)
  then show ?thesis using res app by auto
qed

lemma GKey_get_read_size_bits_le: "GKey_get_read_size_bits k r \<le> k"
  unfolding GKey_get_read_size_bits_def by (simp only: split: if_splits) simp

lemma comp_emitted_frame:
  "comp_emitted c0 p0 c p V n \<Longrightarrow>
   c_history c = c_history c0 \<and> c_history_log_2 c = c_history_log_2 c0 \<and>
   c_read_offset c = c_read_offset c0 \<and> c_read_size c = c_read_size c0 \<and>
   c_in_total c = c_in_total c0 \<and> in_buffer p = in_buffer p0 \<and> in_size p = in_size p0 \<and>
   prog_cb p = prog_cb p0"
  unfolding comp_emitted_def by auto

lemma comp_PutBytes_emitted:
  assumes inv: "ring_inv (c_history c)"
    and rng: "c_read_offset c + c_read_size c \<le> ring_size (c_history c)"
    and out: "out_buffer p = Some w" and acc: "c_acc c < 2 ^ c_acc_nbits c"
    and room: "(c_acc_nbits c + 9 * c_read_size c) div 8 \<le> out_size p"
  shows "\<exists>c2 p2 ring2.
     comp_PutBytes c p =
       (GKeyStatus_OK, True, GKeyCompState_NextSequence, c2\<lparr>c_history := ring2\<rparr>, p2) \<and>
     comp_emitted c p c2 p2
       (literal_run (ring_window (c_history c) (c_read_offset c) (c_read_size c)))
       (9 * c_read_size c) \<and>
     ring_appended (c_history c) ring2
       (ring_window (c_history c) (c_read_offset c) (c_read_size c))"
proof -
  from comp_copy_literals[OF inv rng out acc room]
  obtain ring1 c1 p1 where
    cp: "RingBuffer_copy (c_history c) (Some comp_ring_writer) (c, p) (c_read_offset c)
          (c_read_size c) = (c_read_size c, ring1, (c1, p1))"
    and e: "comp_emitted c p c1 p1
       (literal_run (ring_window (c_history c) (c_read_offset c) (c_read_size c)))
       (9 * c_read_size c)"
    and app: "ring_appended (c_history c) ring1
       (ring_window (c_history c) (c_read_offset c) (c_read_size c))"
    by blast
  have rs: "c_read_size c1 = c_read_size c" using comp_emitted_frame[OF e] by simp
  have "comp_PutBytes c p =
      (GKeyStatus_OK, True, GKeyCompState_NextSequence, c1\<lparr>c_history := ring1\<rparr>, p1)"
    unfolding comp_PutBytes_def cp by (simp add: Let_def rs)
  then show ?thesis using e app by blast
qed

lemma copy_token_bits: "push_bit 1 (ro::nat) OR 1 = 2 * ro + 1"
proof -
  have "push_bit 1 ro OR 1 = 1 OR push_bit 1 ro" by (rule or.commute)
  also have "\<dots> = 1 + 2 ^ 1 * ro" by (rule or_push_bit_add) simp
  also have "\<dots> = 2 * ro + 1" by (simp only: power_one_right add.commute)
  finally show ?thesis .
qed

lemma comp_PutOffset_emitted:
  assumes inv: "ring_inv (c_history c)"
    and rng: "c_read_offset c + c_read_size c \<le> ring_size (c_history c)"
    and k: "c_history_log_2 c \<le> MaxHistoryLog2"
    and ro: "c_read_offset c < 2 ^ c_history_log_2 c"
    and rs: "c_read_size c < 2 ^ GKey_get_read_size_bits (c_history_log_2 c) (c_read_offset c)"
    and out: "out_buffer p = Some w" and acc: "c_acc c < 2 ^ c_acc_nbits c"
    and room: "(c_acc_nbits c + c_history_log_2 c + 1) div 8 \<le> out_size p"
  shows "\<exists>c2 p2 ring2.
     comp_PutOffset c p =
       (GKeyStatus_OK, True, GKeyCompState_NextSequence, c2\<lparr>c_history := ring2\<rparr>, p2) \<and>
     comp_emitted c p c2 p2
       (2 * c_read_offset c + 1 + 2 ^ (c_history_log_2 c + 1) * c_read_size c)
       (c_history_log_2 c + 1 + GKey_get_read_size_bits (c_history_log_2 c) (c_read_offset c)) \<and>
     ring_appended (c_history c) ring2
       (ring_window (c_history c) (c_read_offset c) (c_read_size c))"
proof -
  define nbits where "nbits = GKey_get_read_size_bits (c_history_log_2 c) (c_read_offset c)"
  have n1: "c_history_log_2 c + 1 \<noteq> UINT_MAX" using k by (simp add: UINT_MAX_def)
  have "nbits \<le> c_history_log_2 c" unfolding nbits_def by (rule GKey_get_read_size_bits_le)
  then have n2: "nbits \<noteq> UINT_MAX" using k by (simp add: UINT_MAX_def)
  have b1: "push_bit 1 (c_read_offset c) OR 1 < 2 ^ (c_history_log_2 c + 1)"
    unfolding copy_token_bits using ro by simp
  have r1: "c_acc_nbits c div 8 \<le> out_size p"
  proof -
    have "c_acc_nbits c div 8 \<le> (c_acc_nbits c + c_history_log_2 c + 1) div 8"
      by (intro div_le_mono) simp
    then show ?thesis using room by linarith
  qed
  from write_bits_emitted[OF out acc n1 b1 r1]
  obtain ca pa where
    w1: "write_bits c p (c_history_log_2 c + 1) (push_bit 1 (c_read_offset c) OR 1) = (True, ca, pa)"
    and e1: "comp_emitted c p ca pa (push_bit 1 (c_read_offset c) OR 1) (c_history_log_2 c + 1)"
    by blast
  note f1 = comp_emitted_frame[OF e1]
  obtain wa where oa: "out_buffer pa = Some wa" and aa: "c_acc ca < 2 ^ c_acc_nbits ca"
    using comp_emitted_post[OF e1] by blast
  have "(c_acc_nbits c + (c_history_log_2 c + 1) + 0) div 8 \<le> out_size p"
    using room by (simp add: add.assoc)
  from comp_emitted_room[OF e1 this] have ra: "c_acc_nbits ca div 8 \<le> out_size pa" by simp
  have b2: "c_read_size ca < 2 ^ nbits" using rs f1 by (simp add: nbits_def)
  from write_bits_emitted[OF oa aa n2 b2 ra]
  obtain cb pb where
    w2: "write_bits ca pa nbits (c_read_size ca) = (True, cb, pb)"
    and e2: "comp_emitted ca pa cb pb (c_read_size ca) nbits"
    by blast
  note f2 = comp_emitted_frame[OF e2]
  have inv2: "ring_inv (c_history cb)" using inv f1 f2 by simp
  have rng2: "c_read_offset cb + c_read_size cb \<le> ring_size (c_history cb)"
    using rng f1 f2 by simp
  from copy_plain[OF inv2 rng2]
  obtain ring1 where
    cp: "RingBuffer_copy (c_history cb) None () (c_read_offset cb) (c_read_size cb) =
         (c_read_size cb, ring1, ())"
    and app: "ring_appended (c_history cb) ring1
         (ring_window (c_history cb) (c_read_offset cb) (c_read_size cb))"
    by blast
  have ps: "comp_PutSize ca pa =
      (GKeyStatus_OK, True, GKeyCompState_NextSequence, cb\<lparr>c_history := ring1\<rparr>, pb)"
    unfolding comp_PutSize_def Let_def using f1 w2 cp
    by (simp add: nbits_def)
  have po: "comp_PutOffset c p =
      (GKeyStatus_OK, True, GKeyCompState_NextSequence, cb\<lparr>c_history := ring1\<rparr>, pb)"
    unfolding comp_PutOffset_def w1 using ps by simp
  have e: "comp_emitted c p cb pb
       (2 * c_read_offset c + 1 + 2 ^ (c_history_log_2 c + 1) * c_read_size c)
       (c_history_log_2 c + 1 + nbits)"
  proof -
    have rsa: "c_read_size ca = c_read_size c" using f1 by simp
    show ?thesis
      using comp_emitted_trans[OF e1 e2, unfolded copy_token_bits] by (simp only: rsa)
  qed
  have app': "ring_appended (c_history c) ring1
       (ring_window (c_history c) (c_read_offset c) (c_read_size c))"
    using app f1 f2 by simp
  show ?thesis
    using po e app' unfolding nbits_def by blast
qed

section \<open>The choice between a literal run and a copy token\<close>

lemma comp_PutSize_state:
  "fst (snd (snd (comp_PutSize c p))) \<noteq> GKeyCompState_PutBytes"
  by (simp add: comp_PutSize_def Let_def split: prod.splits)

lemma comp_PutOffset_state:
  "fst (snd (snd (comp_PutOffset c p))) \<noteq> GKeyCompState_PutBytes"
  using comp_PutSize_state
  by (simp add: comp_PutOffset_def split: prod.splits)

text \<open>
  Claim C4.  When case \<open>FindSequence\<close> has a committed match of length \<open>read_size > 0\<close>
  (either \<open>find_sequence\<close> returned true with it, or the call flushes and takes the
  sequence held in the compressor), the state chosen is \<open>PutBytes\<close> exactly when
  \<open>read_size * 9\<close> is strictly less than \<open>1 + k + size_bits\<close>; otherwise the pass goes
  on into \<open>PutOffset\<close>.  With equal costs it is \<open>PutOffset\<close>.  What is then emitted,
  for a match that lies in the ring and fits its fields, with an output buffer that has
  room: in the first case the pass for \<open>PutBytes\<close> appends to the bit stream the run of
  tagged literals of the matched bytes, \<open>9 * read_size\<close> bits; in the second case the pass
  itself appends the copy token, a 1 bit, the offset in \<open>k\<close> bits and the length in
  \<open>size_bits\<close> bits.  Either way the matched bytes are appended to the history and the
  next state is \<open>NextSequence\<close>.
\<close>

theorem comp_emit_choice:
  assumes "0 < c_read_size c1"
    and "(flush \<and> c1 = c \<and> p1 = p) \<or> (\<not> flush \<and> find_sequence c p = Some (True, c1, p1))"
  shows "comp_FindSequence flush c p =
           Some (if c_read_size c1 * 9 <
                    1 + c_history_log_2 c1 +
                      GKey_get_read_size_bits (c_history_log_2 c1) (c_read_offset c1)
                 then (GKeyStatus_OK, True, GKeyCompState_PutBytes, c1, p1)
                 else comp_PutOffset c1 p1) \<and>
         (\<exists>r. comp_FindSequence flush c p = Some r \<and>
              (fst (snd (snd r)) = GKeyCompState_PutBytes) =
              (c_read_size c1 * 9 <
                 1 + c_history_log_2 c1 +
                   GKey_get_read_size_bits (c_history_log_2 c1) (c_read_offset c1))) \<and>
         comp_switch flush GKeyCompState_PutBytes c1 p1 = Some (comp_PutBytes c1 p1) \<and>
         (ring_inv (c_history c1) \<and>
          c_read_offset c1 + c_read_size c1 \<le> ring_size (c_history c1) \<and>
          c_history_log_2 c1 \<le> MaxHistoryLog2 \<and>
          c_read_offset c1 < 2 ^ c_history_log_2 c1 \<and>
          c_read_size c1 < 2 ^ GKey_get_read_size_bits (c_history_log_2 c1) (c_read_offset c1) \<and>
          out_buffer p1 = Some w \<and> c_acc c1 < 2 ^ c_acc_nbits c1 \<and>
          (c_acc_nbits c1 + 9 * c_read_size c1 + c_history_log_2 c1 + 1) div 8 \<le> out_size p1
          \<longrightarrow>
          (\<exists>c2 p2 ring2.
             (if c_read_size c1 * 9 <
                    1 + c_history_log_2 c1 +
                      GKey_get_read_size_bits (c_history_log_2 c1) (c_read_offset c1)
              then comp_FindSequence flush c p =
                     Some (GKeyStatus_OK, True, GKeyCompState_PutBytes, c1, p1) \<and>
                   comp_switch flush GKeyCompState_PutBytes c1 p1 =
                     Some (GKeyStatus_OK, True, GKeyCompState_NextSequence,
                           c2\<lparr>c_history := ring2\<rparr>, p2) \<and>
                   comp_emitted c1 p1 c2 p2
                     (literal_run (ring_window (c_history c1) (c_read_offset c1) (c_read_size c1)))
                     (9 * c_read_size c1)
              else comp_FindSequence flush c p =
                     Some (GKeyStatus_OK, True, GKeyCompState_NextSequence,
                           c2\<lparr>c_history := ring2\<rparr>, p2) \<and>
                   comp_emitted c1 p1 c2 p2
                     (2 * c_read_offset c1 + 1 + 2 ^ (c_history_log_2 c1 + 1) * c_read_size c1)
                     (c_history_log_2 c1 + 1 +
                        GKey_get_read_size_bits (c_history_log_2 c1) (c_read_offset c1))) \<and>
             ring_appended (c_history c1) ring2
               (ring_window (c_history c1) (c_read_offset c1) (c_read_size c1))))"
proof -
  define cheaper where "cheaper = (c_read_size c1 * 9 <
      1 + c_history_log_2 c1 + GKey_get_read_size_bits (c_history_log_2 c1) (c_read_offset c1))"
  have f: "comp_FindSequence flush c p = Some (comp_Found flush c1 p1)"
    using assms(2) by (auto simp: comp_FindSequence_def)
  have g: "comp_Found flush c1 p1 =
      (if cheaper then (GKeyStatus_OK, True, GKeyCompState_PutBytes, c1, p1)
       else comp_PutOffset c1 p1)"
    using assms(1) unfolding cheaper_def
    by (simp add: comp_Found_def Let_def add.commute add.left_commute)
  have sw: "comp_switch flush GKeyCompState_PutBytes c1 p1 = Some (comp_PutBytes c1 p1)"
    by (simp add: comp_switch_def)
  have part1: "comp_FindSequence flush c p =
           Some (if cheaper then (GKeyStatus_OK, True, GKeyCompState_PutBytes, c1, p1)
                 else comp_PutOffset c1 p1)"
    by (simp add: f g)
  have part2: "\<exists>r. comp_FindSequence flush c p = Some r \<and>
              (fst (snd (snd r)) = GKeyCompState_PutBytes) = cheaper"
    using comp_PutOffset_state[of c1 p1] by (auto simp: f g)
  have part3: "\<exists>c2 p2 ring2.
             (if cheaper
              then comp_FindSequence flush c p =
                     Some (GKeyStatus_OK, True, GKeyCompState_PutBytes, c1, p1) \<and>
                   comp_switch flush GKeyCompState_PutBytes c1 p1 =
                     Some (GKeyStatus_OK, True, GKeyCompState_NextSequence,
                           c2\<lparr>c_history := ring2\<rparr>, p2) \<and>
                   comp_emitted c1 p1 c2 p2
                     (literal_run (ring_window (c_history c1) (c_read_offset c1) (c_read_size c1)))
                     (9 * c_read_size c1)
              else comp_FindSequence flush c p =
                     Some (GKeyStatus_OK, True, GKeyCompState_NextSequence,
                           c2\<lparr>c_history := ring2\<rparr>, p2) \<and>
                   comp_emitted c1 p1 c2 p2
                     (2 * c_read_offset c1 + 1 + 2 ^ (c_history_log_2 c1 + 1) * c_read_size c1)
                     (c_history_log_2 c1 + 1 +
                        GKey_get_read_size_bits (c_history_log_2 c1) (c_read_offset c1))) \<and>
             ring_appended (c_history c1) ring2
               (ring_window (c_history c1) (c_read_offset c1) (c_read_size c1))"
    if inv: "ring_inv (c_history c1)"
      and rng: "c_read_offset c1 + c_read_size c1 \<le> ring_size (c_history c1)"
      and k: "c_history_log_2 c1 \<le> MaxHistoryLog2"
      and ro: "c_read_offset c1 < 2 ^ c_history_log_2 c1"
      and rs: "c_read_size c1 < 2 ^ GKey_get_read_size_bits (c_history_log_2 c1) (c_read_offset c1)"
      and out: "out_buffer p1 = Some w" and acc: "c_acc c1 < 2 ^ c_acc_nbits c1"
      and room: "(c_acc_nbits c1 + 9 * c_read_size c1 + c_history_log_2 c1 + 1) div 8 \<le> out_size p1"
  proof (cases cheaper)
    case True
    have "(c_acc_nbits c1 + 9 * c_read_size c1) div 8 \<le>
        (c_acc_nbits c1 + 9 * c_read_size c1 + c_history_log_2 c1 + 1) div 8"
      by (intro div_le_mono) simp
    then have r: "(c_acc_nbits c1 + 9 * c_read_size c1) div 8 \<le> out_size p1"
      using room by linarith
    from comp_PutBytes_emitted[OF inv rng out acc r] True part1 sw
    show ?thesis by auto
  next
    case False
    have "(c_acc_nbits c1 + c_history_log_2 c1 + 1) div 8 \<le>
        (c_acc_nbits c1 + 9 * c_read_size c1 + c_history_log_2 c1 + 1) div 8"
      by (intro div_le_mono) simp
    then have r: "(c_acc_nbits c1 + c_history_log_2 c1 + 1) div 8 \<le> out_size p1"
      using room by linarith
    from comp_PutOffset_emitted[OF inv rng k ro rs out acc r] False part1
    show ?thesis by auto
  qed
  show ?thesis
    using part1 part2 sw part3 unfolding cheaper_def by blast
qed

definition match_at :: "nat \<Rightarrow> GKeyComp" where
  "match_at r = (gkeycomp_make 9)\<lparr>c_read_offset := r, c_read_size := 2\<rparr>"

definition room_of :: "nat \<Rightarrow> GKeyParameters" where
  "room_of n = \<lparr>in_buffer = [], in_size = 0, out_buffer = Some [], out_size = n, prog_cb = None\<rparr>"

lemma match_at_simps:
  "c_read_size (match_at r) = 2" "c_read_offset (match_at r) = r"
  "c_history_log_2 (match_at r) = 9" "c_acc (match_at r) = 0" "c_acc_nbits (match_at r) = 0"
  "ring_size (c_history (match_at r)) = 512" "ring_inv (c_history (match_at r))"
  "out_buffer (room_of n) = Some []" "out_size (room_of n) = n"
  by (simp_all add: match_at_def room_of_def gkeycomp_make_def RingBuffer_make_def
      RingBuffer_init_def RingBuffer_reset_def ring_size_def ring_inv_def)

theorem comp_emit_choice_witness:
  "comp_FindSequence True (match_at 256) (room_of 8) =
     Some (comp_PutOffset (match_at 256) (room_of 8)) \<and>
   comp_FindSequence True (match_at 255) (room_of 8) =
     Some (GKeyStatus_OK, True, GKeyCompState_PutBytes, match_at 255, room_of 8) \<and>
   (\<exists>c2 p2 ring2.
      comp_FindSequence True (match_at 256) (room_of 8) =
        Some (GKeyStatus_OK, True, GKeyCompState_NextSequence, c2\<lparr>c_history := ring2\<rparr>, p2) \<and>
      comp_emitted (match_at 256) (room_of 8) c2 p2 (2 * 256 + 1 + 2 ^ (9 + 1) * 2) (9 + 1 + 8) \<and>
      ring_appended (c_history (match_at 256)) ring2
        (ring_window (c_history (match_at 256)) 256 2)) \<and>
   (\<exists>c2 p2 ring2.
      comp_switch True GKeyCompState_PutBytes (match_at 255) (room_of 8) =
        Some (GKeyStatus_OK, True, GKeyCompState_NextSequence, c2\<lparr>c_history := ring2\<rparr>, p2) \<and>
      comp_emitted (match_at 255) (room_of 8) c2 p2
        (literal_run (ring_window (c_history (match_at 255)) 255 2)) (9 * 2) \<and>
      ring_appended (c_history (match_at 255)) ring2
        (ring_window (c_history (match_at 255)) 255 2))"
proof -
  have s: "GKey_get_read_size_bits 9 256 = 8" "GKey_get_read_size_bits 9 255 = 9"
    by (simp_all add: GKey_get_read_size_bits_legal)
  have h: "0 < c_read_size (match_at r)"
    "(True \<and> match_at r = match_at r \<and> room_of 8 = room_of 8) \<or>
     (\<not> True \<and> find_sequence (match_at r) (room_of 8) = Some (True, match_at r, room_of 8))"
    for r by (simp_all add: match_at_simps)
  note t256 = comp_emit_choice[OF h, of 256 "[]"]
  note t255 = comp_emit_choice[OF h, of 255 "[]"]
  have a: "comp_FindSequence True (match_at 256) (room_of 8) =
     Some (comp_PutOffset (match_at 256) (room_of 8))"
    using t256[THEN conjunct1] by (simp add: match_at_simps s)
  have b: "comp_FindSequence True (match_at 255) (room_of 8) =
     Some (GKeyStatus_OK, True, GKeyCompState_PutBytes, match_at 255, room_of 8)"
    using t255[THEN conjunct1] by (simp add: match_at_simps s)
  have c: "\<exists>c2 p2 ring2.
      comp_FindSequence True (match_at 256) (room_of 8) =
        Some (GKeyStatus_OK, True, GKeyCompState_NextSequence, c2\<lparr>c_history := ring2\<rparr>, p2) \<and>
      comp_emitted (match_at 256) (room_of 8) c2 p2 (2 * 256 + 1 + 2 ^ (9 + 1) * 2) (9 + 1 + 8) \<and>
      ring_appended (c_history (match_at 256)) ring2
        (ring_window (c_history (match_at 256)) 256 2)"
    using t256[THEN conjunct2, THEN conjunct2, THEN conjunct2] match_at_simps(7)[of 256]
    unfolding match_at_simps(1-6,8,9) s by simp
  have d: "\<exists>c2 p2 ring2.
      comp_switch True GKeyCompState_PutBytes (match_at 255) (room_of 8) =
        Some (GKeyStatus_OK, True, GKeyCompState_NextSequence, c2\<lparr>c_history := ring2\<rparr>, p2) \<and>
      comp_emitted (match_at 255) (room_of 8) c2 p2
        (literal_run (ring_window (c_history (match_at 255)) 255 2)) (9 * 2) \<and>
      ring_appended (c_history (match_at 255)) ring2
        (ring_window (c_history (match_at 255)) 255 2)"
    using t255[THEN conjunct2, THEN conjunct2, THEN conjunct2] match_at_simps(7)[of 255]
    unfolding match_at_simps(1-6,8,9) s by simp
  show ?thesis
    by (intro conjI a b c d)
qed

end
